theory Spec2Isabelle
  imports Main "HOL-Library.AList"
begin

section \<open>JavaScript strings\<close>

text \<open>
  A string is a list of characters.  \<open>split_on sep s\<close> is \<^verbatim>\<open>s.split(sep)\<close> for a
  separator of one character: it never returns the empty array, \<^verbatim>\<open>''.split('.')\<close> is
  \<^verbatim>\<open>['']\<close>.  \<open>join sep xs\<close> is \<^verbatim>\<open>xs.join(sep)\<close> on an array of strings.
\<close>

fun split_on :: "char \<Rightarrow> string \<Rightarrow> string list" where
  "split_on sep [] = [[]]"
| "split_on sep (c # cs) =
     (if c = sep then [] # split_on sep cs
      else (case split_on sep cs of
              [] \<Rightarrow> [[c]]
            | w # ws \<Rightarrow> (c # w) # ws))"

fun join :: "string \<Rightarrow> string list \<Rightarrow> string" where
  "join sep [] = []"
| "join sep [x] = x"
| "join sep (x # y # zs) = x @ sep @ join sep (y # zs)"

text \<open>Decimal numerals, as \<^verbatim>\<open>String(n)\<close> prints an integer of magnitude below \<open>10^21\<close>.\<close>

definition digit_char :: "nat \<Rightarrow> char" where
  "digit_char d = char_of (48 + d)"

function show_nat :: "nat \<Rightarrow> string" where
  "show_nat n = (if n < 10 then [digit_char n] else show_nat (n div 10) @ [digit_char (n mod 10)])"
  by pat_completeness auto
termination
  by (relation "measure id") auto

declare show_nat.simps [simp del]

definition show_int :: "int \<Rightarrow> string" where
  "show_int i = (if i < 0 then CHR ''-'' # show_nat (nat (- i)) else show_nat (nat i))"

section \<open>The objects a mask is made of\<close>

text \<open>
  The mask is a JavaScript object used as a mapping from field names to nested objects
  (\<^verbatim>\<open>@param {object} val\<close>).  An object is modelled by its prototype and its own
  properties in the order of their creation; where a key occurs twice in the list the
  first entry is the property.  Two prototypes occur in the source: the one of an object
  literal \<^verbatim>\<open>{}\<close>, and none, for \<^verbatim>\<open>Object.create(null)\<close>.

  Outside this model: property values that are not objects (primitives, functions),
  arrays and class instances inside a mask, accessor properties, and objects that occur at
  two places of a mask or contain themselves.  A value is a finite tree, so a reference to
  an object inside the mask is the list of keys that leads to it.  \<^verbatim>\<open>Object.prototype\<close>
  is as the language defines it: no code has added properties to it.
\<close>

datatype proto = ObjectPrototype | NullPrototype

datatype jsobj = JObj proto "(string \<times> jsobj) list"

text \<open>
  Property order (\<^verbatim>\<open>Object.keys\<close>, \<^verbatim>\<open>for ... in\<close>): the keys that are array indices, in
  ascending numeric order, then the other keys in the order of their creation.
\<close>

fun insertion_keys :: "(string \<times> 'a) list \<Rightarrow> string list" where
  "insertion_keys [] = []"
| "insertion_keys ((k, v) # kvs) = k # removeAll k (insertion_keys kvs)"

definition is_digit :: "char \<Rightarrow> bool" where
  "is_digit c = (c \<in> set ''0123456789'')"

definition digit_value :: "char \<Rightarrow> int" where
  "digit_value c = of_char c - 48"

definition decimal_value :: "string \<Rightarrow> int" where
  "decimal_value s = foldl (\<lambda>n c. 10 * n + digit_value c) 0 s"

definition is_array_index :: "string \<Rightarrow> bool" where
  "is_array_index k =
     (k \<noteq> [] \<and> list_all is_digit k \<and> (k = ''0'' \<or> hd k \<noteq> CHR ''0'') \<and>
      decimal_value k < 4294967295)"

definition own_keys :: "(string \<times> 'a) list \<Rightarrow> string list" where
  "own_keys kvs =
     (let ks = insertion_keys kvs
      in sort_key decimal_value (filter is_array_index ks) @
         filter (\<lambda>k. \<not> is_array_index k) ks)"

fun Object_keys :: "jsobj \<Rightarrow> string list" where
  "Object_keys (JObj p kvs) = own_keys kvs"

text \<open>
  \<^verbatim>\<open>ref[key]\<close> reads an own property, or else a member inherited from the prototype.
  The members of \<^verbatim>\<open>Object.prototype\<close> are functions, and \<^verbatim>\<open>__proto__\<close> reads the
  prototype itself: all of them are truthy, none is enumerable, and none is an object of
  the mask.
\<close>

definition Object_prototype_members :: "string list" where
  "Object_prototype_members =
     [''constructor'', ''__defineGetter__'', ''__defineSetter__'', ''hasOwnProperty'',
      ''__lookupGetter__'', ''__lookupSetter__'', ''isPrototypeOf'',
      ''propertyIsEnumerable'', ''toString'', ''valueOf'', ''__proto__'',
      ''toLocaleString'']"

datatype lookup = Own jsobj | Inherited | Missing

fun get :: "jsobj \<Rightarrow> string \<Rightarrow> lookup" where
  "get (JObj p kvs) key =
     (case map_of kvs key of
        Some v \<Rightarrow> Own v
      | None \<Rightarrow>
          if p = ObjectPrototype \<and> key \<in> set Object_prototype_members then Inherited
          else Missing)"

text \<open>
  \<^verbatim>\<open>v.constructor === Object\<close>: true for an object literal with no own property of that
  name.  An own property \<^verbatim>\<open>constructor\<close> holds an object of the mask, which is not the
  function \<^verbatim>\<open>Object\<close>; without a prototype the property is undefined.
\<close>

fun constructor_is_Object :: "jsobj \<Rightarrow> bool" where
  "constructor_is_Object (JObj p kvs) =
     (p = ObjectPrototype \<and> map_of kvs ''constructor'' = None)"

text \<open>
  \<^verbatim>\<open>ref[key] = v\<close> and \<^verbatim>\<open>delete ref[key]\<close> on own properties.  A new key is created
  last; an existing one keeps its place.  The one assignment that is not a write of an own
  property is \<^verbatim>\<open>ref['__proto__'] = v\<close> on an object that inherits the accessor: it calls
  the setter, which replaces the prototype of \<^verbatim>\<open>ref\<close>.
\<close>

fun put :: "jsobj \<Rightarrow> string \<Rightarrow> jsobj \<Rightarrow> jsobj" where
  "put (JObj p kvs) key v = JObj p (AList.update key v kvs)"

fun del :: "jsobj \<Rightarrow> string \<Rightarrow> jsobj" where
  "del (JObj p kvs) key = JObj p (AList.delete key kvs)"

fun hits_proto_setter :: "jsobj \<Rightarrow> string \<Rightarrow> bool" where
  "hits_proto_setter (JObj p kvs) key =
     (key = ''__proto__'' \<and> p = ObjectPrototype \<and> map_of kvs key = None)"

lemma map_of_size:
  "map_of kvs k = Some v \<Longrightarrow>
   size (v::jsobj) < Suc (size_list (size_prod (\<lambda>x. 0) size) kvs)"
  by (induction kvs) (auto split: if_splits)

text \<open>The object reached from \<open>obj\<close> along own properties, and the mask after the object
  at a location has been changed in place.\<close>

function descend :: "jsobj \<Rightarrow> string list \<Rightarrow> jsobj option" where
  "descend obj [] = Some obj"
| "descend (JObj p kvs) (k # ks) =
     (case map_of kvs k of None \<Rightarrow> None | Some child \<Rightarrow> descend child ks)"
  by pat_completeness auto
termination
  by (relation "measure (\<lambda>(obj, ks). length ks)") auto

function modify_at :: "jsobj \<Rightarrow> string list \<Rightarrow> (jsobj \<Rightarrow> jsobj) \<Rightarrow> jsobj" where
  "modify_at obj [] f = f obj"
| "modify_at (JObj p kvs) (k # ks) f =
     (case map_of kvs k of
        None \<Rightarrow> JObj p kvs
      | Some child \<Rightarrow> JObj p (AList.update k (modify_at child ks f) kvs))"
  by pat_completeness auto
termination
  by (relation "measure (\<lambda>(obj, ks, f). length ks)") auto

section \<open>Values handed to the library\<close>

text \<open>
  The argument of \<^verbatim>\<open>push\<close>, the credentials and the parsed JSON bodies are plain data:
  \<^verbatim>\<open>undefined\<close>, \<^verbatim>\<open>null\<close>, booleans, integral numbers, strings, arrays, and objects with
  data properties.  (Numbers that are not integers, functions and symbols are outside the
  model.)
\<close>

datatype jsval =
    JUndefined
  | JNull
  | JBool bool
  | JNum int
  | JStr string
  | JArr "jsval list"
  | JData "(string \<times> jsval) list"

fun truthy :: "jsval \<Rightarrow> bool" where
  "truthy JUndefined = False"
| "truthy JNull = False"
| "truthy (JBool b) = b"
| "truthy (JNum n) = (n \<noteq> 0)"
| "truthy (JStr s) = (s \<noteq> [])"
| "truthy (JArr xs) = True"
| "truthy (JData kvs) = True"

fun is_string :: "jsval \<Rightarrow> bool" where
  "is_string (JStr s) = True"
| "is_string v = False"

fun isArray :: "jsval \<Rightarrow> bool" where
  "isArray (JArr xs) = True"
| "isArray v = False"

text \<open>
  \<^verbatim>\<open>String(v)\<close>, which is also how a value becomes a property key and how a template
  literal prints it.  \<open>None\<close> is the \<^verbatim>\<open>TypeError\<close> of an object that cannot be converted:
  an object whose own \<^verbatim>\<open>toString\<close> property is data, not a function.  An array prints its
  elements joined by commas, \<^verbatim>\<open>null\<close> and \<^verbatim>\<open>undefined\<close> as nothing.
\<close>

fun to_string :: "jsval \<Rightarrow> string option" where
  "to_string JUndefined = Some ''undefined''"
| "to_string JNull = Some ''null''"
| "to_string (JBool b) = Some (if b then ''true'' else ''false'')"
| "to_string (JNum n) = Some (show_int n)"
| "to_string (JStr s) = Some s"
| "to_string (JArr xs) =
     map_option (join '','')
       (those (map (\<lambda>x. case x of JUndefined \<Rightarrow> Some [] | JNull \<Rightarrow> Some []
                              | _ \<Rightarrow> to_string x) xs))"
| "to_string (JData kvs) =
     (if map_of kvs ''toString'' = None then Some ''[object Object]'' else None)"

section \<open>SLAPIMask\<close>

datatype js_error =
    Error string
  | SyntaxError string
  | ReferenceError string string string
  | TypeError
  | InvalidCharacterError
  | FetchFailed
  | NotJSON

text \<open>
  \<open>ReferenceError key path shown\<close> stands for the message
  \<^verbatim>\<open>"${key}" of path "${path}" doesn't exist in the current mask. (${this.toString()})\<close>.
  \<open>TypeError\<close> is the runtime's error for a value that cannot be converted to a string or
  has no properties, \<open>InvalidCharacterError\<close> the one of \<^verbatim>\<open>btoa\<close>; \<open>FetchFailed\<close> is a
  rejected \<^verbatim>\<open>fetch\<close> and \<open>NotJSON\<close> a rejected \<^verbatim>\<open>res.json()\<close>.
  The conditions of the specification are these exceptions:
\<close>

abbreviation SyntaxViolation :: js_error where
  "SyntaxViolation \<equiv> SyntaxError ''Object keys cannot include periods''"

abbreviation PathNotFound :: "string \<Rightarrow> string \<Rightarrow> string \<Rightarrow> js_error" where
  "PathNotFound key path shown \<equiv> ReferenceError key path shown"

abbreviation InvalidArgument :: js_error where
  "InvalidArgument \<equiv> Error ''Invalid property/properties name/s''"

record SLAPIMask =
  maskObj :: jsobj

definition new_SLAPIMask :: SLAPIMask where
  "new_SLAPIMask = \<lparr>maskObj = JObj NullPrototype []\<rparr>"

text \<open>
  What a call of a method does: it returns with the mask in a new state, or it throws with
  the mask in the state it had at the \<^verbatim>\<open>throw\<close>, or (\<open>Escapes\<close>) it has followed a member
  inherited from \<^verbatim>\<open>Object.prototype\<close>, or the \<^verbatim>\<open>__proto__\<close> setter, out of the mask: from
  there on it reads and writes objects of the JavaScript runtime, which are not described
  here.
\<close>

datatype outcome = Done SLAPIMask | Throw js_error SLAPIMask | Escapes

subsection \<open>\<^verbatim>\<open>_checkKeys\<close>\<close>

text \<open>\<open>True\<close>: the call returns; \<open>False\<close>: it throws the \<^verbatim>\<open>SyntaxError\<close>.  (The values of a
  mask are objects, so \<^verbatim>\<open>obj[key] &&\<close> holds.)\<close>

function checkKeys :: "jsobj \<Rightarrow> bool" where
  "checkKeys (JObj p kvs) =
     list_all (\<lambda>key.
        CHR ''.'' \<notin> set key \<and>
        (case map_of kvs key of
           None \<Rightarrow> True
         | Some v \<Rightarrow>
             (if constructor_is_Object v \<and> Object_keys v \<noteq> [] then checkKeys v else True)))
       (own_keys kvs)"
  by pat_completeness auto
termination
  by (relation "measure size") (auto simp: map_of_size)

declare checkKeys.simps [simp del]

subsection \<open>\<^verbatim>\<open>_objToStr\<close> and \<^verbatim>\<open>toString\<close>\<close>

text \<open>
  \<open>recurse obj current\<close> is the list of strings the call \<^verbatim>\<open>recurse(obj, current)\<close> pushes
  to \<^verbatim>\<open>res\<close>, in order; \<open>current\<close> is \<open>None\<close> for \<^verbatim>\<open>undefined\<close>.  \<open>newKey\<close> is the
  expression \<^verbatim>\<open>current ? current + '.' + key : key\<close>: the empty string is falsy, as
  \<^verbatim>\<open>undefined\<close> is.  (The values are objects, so \<^verbatim>\<open>value && typeof value === 'object'\<close>
  holds, and the objects have no enumerable inherited properties.)
\<close>

fun newKey :: "string option \<Rightarrow> string \<Rightarrow> string" where
  "newKey None key = key"
| "newKey (Some current) key = (if current \<noteq> [] then current @ ''.'' @ key else key)"

function recurse :: "jsobj \<Rightarrow> string option \<Rightarrow> string list" where
  "recurse (JObj p kvs) current =
     concat (map (\<lambda>key.
        case map_of kvs key of
          None \<Rightarrow> []
        | Some v \<Rightarrow>
            (if Object_keys v \<noteq> [] then recurse v (Some (newKey current key))
             else [newKey current key]))
       (own_keys kvs))"
  by pat_completeness auto
termination
  by (relation "measure (\<lambda>(obj, current). size obj)") (auto simp: map_of_size)

declare recurse.simps [simp del]

definition objToStr :: "jsobj \<Rightarrow> string" where
  "objToStr obj = join '','' (recurse obj None)"

definition toString :: "SLAPIMask \<Rightarrow> string" where
  "toString m = ''mask['' @ objToStr (maskObj m) @ '']''"

subsection \<open>\<^verbatim>\<open>_getRef\<close>\<close>

text \<open>
  The loop of \<^verbatim>\<open>_getRef\<close>: \<open>Reached loc ref\<close> when every segment had a value in the mask
  (\<open>loc\<close> are the keys walked, \<open>ref\<close> the object found), \<open>Absent key\<close> when \<^verbatim>\<open>ref[key]\<close> was
  undefined, \<open>Runtime\<close> when it was an inherited member.
\<close>

datatype walk_result = Reached "string list" jsobj | Absent string | Runtime

fun walk :: "string list \<Rightarrow> jsobj \<Rightarrow> string list \<Rightarrow> walk_result" where
  "walk loc ref [] = Reached loc ref"
| "walk loc ref (key # keys) =
     (case get ref key of
        Own v \<Rightarrow> walk (loc @ [key]) v keys
      | Inherited \<Rightarrow> Runtime
      | Missing \<Rightarrow> Absent key)"

datatype 'a result = Ok 'a | Raise js_error | Outside

definition getRef :: "SLAPIMask \<Rightarrow> string \<Rightarrow> (string list \<times> jsobj) result" where
  "getRef m path =
     (if path \<noteq> [] then
        (case walk [] (maskObj m) (split_on CHR ''.'' path) of
           Reached loc ref \<Rightarrow> Ok (loc, ref)
         | Absent key \<Rightarrow> Raise (PathNotFound key path (toString m))
         | Runtime \<Rightarrow> Outside)
      else Ok ([], maskObj m))"

subsection \<open>\<^verbatim>\<open>set\<close>, \<^verbatim>\<open>unset\<close>, \<^verbatim>\<open>push\<close>\<close>

text \<open>
  \<open>parent_ref m path\<close> is the \<^verbatim>\<open>ref\<close> of \<^verbatim>\<open>set\<close> and \<^verbatim>\<open>unset\<close>, \<open>target path\<close> their
  \<^verbatim>\<open>target\<close>, \<open>shortenedKey path\<close> the string \<^verbatim>\<open>shortenedKey\<close> after the \<^verbatim>\<open>join\<close>.  A call
  that leaves an argument out is the call with the default: \<^verbatim>\<open>{}\<close> for the value, the
  empty string for the path.
\<close>

definition target :: "string \<Rightarrow> string" where
  "target path = last (split_on CHR ''.'' path)"

definition shortenedKey :: "string \<Rightarrow> string" where
  "shortenedKey path = join ''.'' (butlast (split_on CHR ''.'' path))"

definition parent_ref :: "SLAPIMask \<Rightarrow> string \<Rightarrow> (string list \<times> jsobj) result" where
  "parent_ref m path =
     (if shortenedKey path = [] then Ok ([], maskObj m) else getRef m (shortenedKey path))"

definition set_mask :: "jsobj \<Rightarrow> string \<Rightarrow> SLAPIMask \<Rightarrow> outcome" where
  "set_mask val path m =
     (if \<not> checkKeys val then Throw SyntaxViolation m
      else if path = [] then Done (m\<lparr>maskObj := val\<rparr>)
      else
        (case parent_ref m path of
           Raise e \<Rightarrow> Throw e m
         | Outside \<Rightarrow> Escapes
         | Ok (loc, ref) \<Rightarrow>
             if hits_proto_setter ref (target path) then Escapes
             else Done (m\<lparr>maskObj :=
                    modify_at (maskObj m) loc (\<lambda>r. put r (target path) val)\<rparr>)))"

definition unset :: "string \<Rightarrow> SLAPIMask \<Rightarrow> outcome" where
  "unset path m =
     (if path = [] then Done (m\<lparr>maskObj := JObj ObjectPrototype []\<rparr>)
      else
        (case parent_ref m path of
           Raise e \<Rightarrow> Throw e m
         | Outside \<Rightarrow> Escapes
         | Ok (loc, ref) \<Rightarrow>
             Done (m\<lparr>maskObj := modify_at (maskObj m) loc (\<lambda>r. del r (target path))\<rparr>)))"

text \<open>
  \<open>tempObj prop\<close> is the object \<^verbatim>\<open>push\<close> builds: created without a prototype, then one
  assignment \<^verbatim>\<open>tempObj[name] = {}\<close> for the string, or for each element of the array in
  turn.  \<open>None\<close>: an element could not be converted to a property key.
\<close>

fun tempObj_loop :: "jsobj \<Rightarrow> jsval list \<Rightarrow> jsobj option" where
  "tempObj_loop obj [] = Some obj"
| "tempObj_loop obj (x # xs) =
     (case to_string x of
        None \<Rightarrow> None
      | Some key \<Rightarrow> tempObj_loop (put obj key (JObj ObjectPrototype [])) xs)"

fun tempObj :: "jsval \<Rightarrow> jsobj option" where
  "tempObj (JArr xs) = tempObj_loop (JObj NullPrototype []) xs"
| "tempObj (JStr s) = Some (put (JObj NullPrototype []) s (JObj ObjectPrototype []))"
| "tempObj v = None"

definition push :: "jsval \<Rightarrow> string \<Rightarrow> SLAPIMask \<Rightarrow> outcome" where
  "push prop path m =
     (if \<not> truthy prop \<or> (\<not> is_string prop \<and> \<not> isArray prop) then Throw InvalidArgument m
      else
        (case tempObj prop of
           None \<Rightarrow> Throw TypeError m
         | Some obj \<Rightarrow> set_mask obj path m))"

section \<open>SLAPIRequest\<close>

text \<open>
  The platform the class runs on is a parameter: the clock and the HTTP transport answer
  as a function of the events so far; \<^verbatim>\<open>btoa\<close> and \<^verbatim>\<open>JSON.stringify\<close> are functions of
  their argument (\<open>None\<close>: \<^verbatim>\<open>btoa\<close> throws, \<^verbatim>\<open>JSON.stringify\<close> returns \<^verbatim>\<open>undefined\<close>).
  A response is what the class reads of it: the header \<^verbatim>\<open>SoftLayer-Total-Items\<close> and the
  value \<^verbatim>\<open>res.json()\<close> resolves to (\<open>None\<close>: it rejects).  The events are the calls of
  \<^verbatim>\<open>fetch\<close>, \<^verbatim>\<open>console.log\<close> and \<^verbatim>\<open>setTimeout\<close> (through \<^verbatim>\<open>timeout\<close>), oldest first.
  Every request is sent with \<^verbatim>\<open>mode: 'cors'\<close> and \<^verbatim>\<open>credentials: 'include'\<close>.
\<close>

record response =
  total_items :: "string option"
  json_body :: "jsval option"

record http_request =
  req_url :: string
  req_method :: string
  req_headers :: "(string \<times> string) list"
  req_body :: "(string \<times> string) list option"

datatype event = Fetched http_request | Logged string | Slept int

record platform =
  Date_now :: "event list \<Rightarrow> int"
  fetch_result :: "event list \<Rightarrow> http_request \<Rightarrow> response option"
  btoa :: "string \<Rightarrow> string option"
  JSON_stringify :: "jsval \<Rightarrow> string option"

record results =
  res :: "response option"
  start :: "int option"
  end' :: "int option"

record options =
  offset :: int
  limit :: int
  filter_opt :: jsval
  headers :: "(string \<times> string) list"
  body :: "(string \<times> string) list"
  method_opt :: string

record config =
  endpoint :: string
  service :: jsval
  func :: jsval
  username :: jsval
  password :: jsval

datatype exec_value = ErrorObject js_error | Json jsval

record SLAPIRequest =
  results :: results
  options :: options
  config :: config
  mask :: SLAPIMask
  resArr :: "exec_value list option"

text \<open>
  The fields of the class.  \<^verbatim>\<open>Headers\<close>, \<^verbatim>\<open>FormData\<close> and \<^verbatim>\<open>URLSearchParams\<close> are
  lists of name and value; limit and offset are integers; service, function and the
  credentials are plain data, since the source tests them for truthiness and
  \<^verbatim>\<open>employeeLogin\<close> stores fields of a JSON body in them.  (\<^verbatim>\<open>options.service\<close> and
  \<^verbatim>\<open>options.func\<close> are never read and are left out.)

  The constructor destructures its argument: a property that is left out or undefined
  takes its default, which is \<^verbatim>\<open>'SoftLayer_Hardware_Server'\<close> for the service,
  \<^verbatim>\<open>'getObject'\<close> for the function, a new mask for the mask (\<open>None\<close> is the mask left
  out) and \<^verbatim>\<open>{}\<close> for the filter; the credentials have no default.
\<close>

definition new_results :: results where
  "new_results = \<lparr>res = None, start = None, end' = None\<rparr>"

definition new_options :: options where
  "new_options =
     \<lparr>offset = 0, limit = 25, filter_opt = JData [], headers = [], body = [],
      method_opt = ''get''\<rparr>"

definition new_SLAPIRequest ::
  "jsval \<Rightarrow> jsval \<Rightarrow> SLAPIMask option \<Rightarrow> jsval \<Rightarrow> jsval \<Rightarrow> jsval \<Rightarrow> SLAPIRequest" where
  "new_SLAPIRequest service_arg func_arg mask_arg filter_arg username_arg password_arg =
     \<lparr>results = new_results,
      options = new_options
        \<lparr>filter_opt := (if filter_arg = JUndefined then JData [] else filter_arg)\<rparr>,
      config = \<lparr>endpoint = ''https://api.softlayer.com/rest/v3.1/'',
                service = (if service_arg = JUndefined then JStr ''SoftLayer_Hardware_Server''
                           else service_arg),
                func = (if func_arg = JUndefined then JStr ''getObject'' else func_arg),
                username = username_arg, password = password_arg\<rparr>,
      mask = (case mask_arg of None \<Rightarrow> new_SLAPIMask | Some given \<Rightarrow> given),
      resArr = None\<rparr>"

text \<open>
  \<^verbatim>\<open>URLSearchParams.prototype.toString\<close>: names and values in the
  \<^verbatim>\<open>application/x-www-form-urlencoded\<close> form, byte by byte: letters, digits and
  \<^verbatim>\<open>*-._\<close> stay, a space is \<^verbatim>\<open>+\<close>, any other byte is \<^verbatim>\<open>%\<close> and two upper-case
  hexadecimal digits.
\<close>

definition unreserved :: "char \<Rightarrow> bool" where
  "unreserved c =
     (let n = (of_char c :: int)
      in (48 \<le> n \<and> n \<le> 57) \<or> (65 \<le> n \<and> n \<le> 90) \<or> (97 \<le> n \<and> n \<le> 122) \<or>
         c \<in> set ''*-._'')"

definition hex_digit :: "nat \<Rightarrow> char" where
  "hex_digit d = ''0123456789ABCDEF'' ! d"

definition encode_char :: "char \<Rightarrow> string" where
  "encode_char c =
     (if unreserved c then [c]
      else if c = CHR '' '' then ''+''
      else [CHR ''%'', hex_digit (of_char c div 16), hex_digit (of_char c mod 16)])"

definition form_urlencode :: "string \<Rightarrow> string" where
  "form_urlencode s = concat (map encode_char s)"

definition params_set ::
  "string \<Rightarrow> string \<Rightarrow> (string \<times> string) list \<Rightarrow> (string \<times> string) list" where
  "params_set name v params = AList.update name v params"

definition params_toString :: "(string \<times> string) list \<Rightarrow> string" where
  "params_toString params =
     join ''&'' (map (\<lambda>(name, v). form_urlencode name @ ''='' @ form_urlencode v) params)"

text \<open>\<^verbatim>\<open>toLocaleLowerCase\<close> on the letters A to Z.\<close>

definition to_lower :: "string \<Rightarrow> string" where
  "to_lower s =
     map (\<lambda>c. let n = (of_char c :: nat) in if 65 \<le> n \<and> n \<le> 90 then char_of (n + 32) else c) s"

text \<open>An asynchronous method resolves to a value or rejects with an error; a getter
  returns or throws.\<close>

datatype 'a completion = Returns 'a | Throws js_error

definition url :: "SLAPIRequest \<Rightarrow> js_error + string" where
  "url r =
     (if \<not> truthy (service (config r)) then Inl (Error ''Invalid service'')
      else if \<not> truthy (func (config r)) then Inl (Error ''Invalid function'')
      else
        (case (to_string (service (config r)), to_string (func (config r))) of
           (Some s, Some f) \<Rightarrow> Inr (endpoint (config r) @ s @ ''/'' @ f)
         | _ \<Rightarrow> Inl TypeError))"

definition urlQuery :: "platform \<Rightarrow> SLAPIRequest \<Rightarrow> js_error + string" where
  "urlQuery pf r =
     (if \<not> truthy (service (config r)) then Inl (Error ''Invalid service'')
      else if \<not> truthy (func (config r)) then Inl (Error ''Invalid function'')
      else
        (let mask_str = toString (mask r);
             filter_str = JSON_stringify pf (filter_opt (options r));
             params = [];
             params = (if mask_str \<noteq> ''mask[]'' then params_set ''objectMask'' mask_str params
                       else params);
             params = (if filter_str \<noteq> Some ''{}''
                       then params_set ''objectFilter''
                              (case filter_str of None \<Rightarrow> ''undefined'' | Some f \<Rightarrow> f) params
                       else params);
             params = params_set ''resultLimit''
                        (show_int (offset (options r)) @ '','' @ show_int (limit (options r)))
                        params
         in (case (to_string (service (config r)), to_string (func (config r))) of
               (Some s, Some f) \<Rightarrow>
                 Inr (endpoint (config r) @ s @ ''/'' @ f @ ''?'' @ params_toString params)
             | _ \<Rightarrow> Inl TypeError)))"

definition duration :: "SLAPIRequest \<Rightarrow> string" where
  "duration r =
     show_int ((case end' (results r) of None \<Rightarrow> 0 | Some t \<Rightarrow> t) -
               (case start (results r) of None \<Rightarrow> 0 | Some t \<Rightarrow> t)) @ ''ms''"

definition page :: "int \<Rightarrow> SLAPIRequest \<Rightarrow> SLAPIRequest" where
  "page n r = r\<lparr>options := (options r)\<lparr>offset := (n - 1) * limit (options r)\<rparr>\<rparr>"

definition set_method :: "string \<Rightarrow> SLAPIRequest \<Rightarrow> SLAPIRequest" where
  "set_method v r = r\<lparr>options := (options r)\<lparr>method_opt := v\<rparr>\<rparr>"

definition set_body :: "(string \<times> string) list \<Rightarrow> SLAPIRequest \<Rightarrow> SLAPIRequest" where
  "set_body v r = r\<lparr>options := (options r)\<lparr>body := v\<rparr>\<rparr>"

definition set_username :: "jsval \<Rightarrow> SLAPIRequest \<Rightarrow> SLAPIRequest" where
  "set_username v r = r\<lparr>config := (config r)\<lparr>username := v\<rparr>\<rparr>"

definition set_password :: "jsval \<Rightarrow> SLAPIRequest \<Rightarrow> SLAPIRequest" where
  "set_password v r = r\<lparr>config := (config r)\<lparr>password := v\<rparr>\<rparr>"

text \<open>
  \<^verbatim>\<open>exec\<close>.  The result is the completion, the instance and the events after the call.
  Without credentials an \<^verbatim>\<open>Error\<close> object is the value returned.
\<close>

definition exec ::
  "platform \<Rightarrow> SLAPIRequest \<Rightarrow> event list \<Rightarrow>
   exec_value completion \<times> SLAPIRequest \<times> event list" where
  "exec pf r w =
     (if \<not> truthy (username (config r)) \<or> \<not> truthy (password (config r))
      then (Returns (ErrorObject (Error ''Invalid API token'')), r, w)
      else
        (let r1 = r\<lparr>results := (results r)\<lparr>start := Some (Date_now pf w)\<rparr>\<rparr>
         in case urlQuery pf r1 of
              Inl e \<Rightarrow> (Throws e, r1, w)
            | Inr query_url \<Rightarrow>
         (let meth = (if method_opt (options r1) = [] then ''get'' else method_opt (options r1))
          in case (to_string (username (config r1)), to_string (password (config r1))) of
               (Some u, Some p) \<Rightarrow>
          (case btoa pf (u @ '':'' @ p) of
             None \<Rightarrow> (Throws InvalidCharacterError, r1, w)
           | Some b64 \<Rightarrow>
          (let r2 = r1\<lparr>options := (options r1)\<lparr>headers :=
                      AList.update ''Authorization'' (''Basic '' @ b64)
                        (headers (options r1))\<rparr>\<rparr>;
               post = (to_lower meth = ''post'')
           in case (if post then url r2 else Inr query_url) of
                Inl e \<Rightarrow> (Throws e, r2, w)
              | Inr fetch_url \<Rightarrow>
          (let request = \<lparr>req_url = fetch_url, req_method = meth,
                          req_headers = headers (options r2),
                          req_body = (if post then Some (body (options r2)) else None)\<rparr>;
               w1 = w @ [Fetched request]
           in case fetch_result pf w request of
                None \<Rightarrow> (Throws FetchFailed, r2, w1)
              | Some response \<Rightarrow>
          (let r3 = r2\<lparr>results := (results r2)
                      \<lparr>res := Some response, end' := Some (Date_now pf w1)\<rparr>\<rparr>
           in case json_body response of
                None \<Rightarrow> (Throws NotJSON, r3, w1)
              | Some j \<Rightarrow> (Returns (Json j), r3, w1)))))
             | _ \<Rightarrow> (Throws TypeError, r1, w))))"

text \<open>
  \<^verbatim>\<open>getNumOfPages\<close>.  \<open>pages_loop\<close> is the \<^verbatim>\<open>for\<close> loop with its variables \<open>i\<close> and
  \<^verbatim>\<open>resArr\<close>; \<^verbatim>\<open>[].concat.apply([], resArr)\<close> spreads the elements that are arrays.
\<close>

fun spread :: "exec_value \<Rightarrow> exec_value list" where
  "spread (Json (JArr xs)) = map Json xs"
| "spread v = [v]"

function pages_loop ::
  "platform \<Rightarrow> int \<Rightarrow> int \<Rightarrow> exec_value list \<Rightarrow> SLAPIRequest \<Rightarrow> event list \<Rightarrow>
   exec_value list completion \<times> SLAPIRequest \<times> event list" where
  "pages_loop pf i pages acc r w =
     (if i \<le> pages then
        (case exec pf (page i r) w of
           (Throws e, r', w') \<Rightarrow> (Throws e, r', w')
         | (Returns v, r', w') \<Rightarrow>
             pages_loop pf (i + 1) pages (acc @ [v]) r'
               (w' @ [Logged (''Retrieved page '' @ show_int i @ '' of '' @ show_int pages @
                              '' in '' @ duration r'),
                      Slept 300]))
      else (Returns acc, r, w))"
  by pat_completeness auto
termination
  by (relation "measure (\<lambda>(pf, i, pages, acc, r, w). nat (pages + 1 - i))") auto

declare pages_loop.simps [simp del]

definition getNumOfPages ::
  "platform \<Rightarrow> int \<Rightarrow> SLAPIRequest \<Rightarrow> event list \<Rightarrow>
   exec_value list completion \<times> SLAPIRequest \<times> event list" where
  "getNumOfPages pf pages r w =
     (case pages_loop pf 1 pages [] r w of
        (Throws e, r', w') \<Rightarrow> (Throws e, r', w')
      | (Returns acc, r', w') \<Rightarrow>
          (Returns (concat (map spread acc)), r'\<lparr>resArr := Some (concat (map spread acc))\<rparr>, w'))"

text \<open>
  \<^verbatim>\<open>employeeLogin\<close>.  \<open>read_field v name\<close> is \<^verbatim>\<open>res[name]\<close> for the names the method
  reads (\<^verbatim>\<open>error\<close>, \<^verbatim>\<open>userId\<close>, \<^verbatim>\<open>hash\<close>: no built-in prototype has them); \<open>None\<close> is the
  \<^verbatim>\<open>TypeError\<close> of reading a property of \<^verbatim>\<open>null\<close>.  \<open>login_call\<close> is \<^verbatim>\<open>apiCall\<close> before
  it is executed.
\<close>

fun read_field :: "exec_value \<Rightarrow> string \<Rightarrow> jsval option" where
  "read_field (Json (JData kvs)) name =
     Some (case map_of kvs name of None \<Rightarrow> JUndefined | Some v \<Rightarrow> v)"
| "read_field (Json JNull) name = None"
| "read_field (Json JUndefined) name = None"
| "read_field v name = Some JUndefined"

definition login_call :: "jsval \<Rightarrow> jsval \<Rightarrow> string \<Rightarrow> SLAPIRequest" where
  "login_call username_arg password_arg remoteToken =
     set_body [(''remoteToken'', remoteToken)]
       (set_method ''post''
         (new_SLAPIRequest (JStr ''SoftLayer_User_Employee'')
            (JStr ''getEncryptedSessionToken'') None JUndefined
            username_arg password_arg))"

definition employeeLogin ::
  "platform \<Rightarrow> jsval \<Rightarrow> jsval \<Rightarrow> jsval \<Rightarrow> SLAPIRequest \<Rightarrow> event list \<Rightarrow>
   unit completion \<times> SLAPIRequest \<times> event list" where
  "employeeLogin pf username_arg password_arg token r w =
     (if \<not> truthy username_arg \<or> \<not> truthy password_arg \<or> \<not> truthy token
      then (Throws (Error ''Missing login credentials''), r, w)
      else
        (case to_string token of
           None \<Rightarrow> (Throws TypeError, r, w)
         | Some remoteToken \<Rightarrow>
        (let apiCall = login_call username_arg password_arg remoteToken
         in case exec pf apiCall w of
              (Throws e, apiCall', w') \<Rightarrow> (Throws e, r, w')
            | (Returns v, apiCall', w') \<Rightarrow>
        (case read_field v ''error'' of
           None \<Rightarrow> (Throws TypeError, r, w')
         | Some err \<Rightarrow>
             if truthy err then
               (case to_string err of
                  None \<Rightarrow> (Throws TypeError, r, w')
                | Some msg \<Rightarrow> (Throws (Error msg), r, w'))
             else
               (case (read_field v ''userId'', read_field v ''hash'') of
                  (Some userId, Some hash) \<Rightarrow>
                    (Returns (), set_password hash (set_username userId r), w')
                | _ \<Rightarrow> (Throws TypeError, r, w'))))))"

section \<open>Notions of the specification: masks\<close>

text \<open>
  The leaves of a mask are the objects without keys.  \<open>leaf_paths t\<close> lists, depth first
  and in property order, the keys from the root to each leaf; \<open>is_leaf_path\<close> says the same
  through lookups alone, so it does not depend on the order in which keys were created.
  \<open>same_paths\<close>: two masks hold the same paths, however they were built.
\<close>

function leaf_paths :: "jsobj \<Rightarrow> string list list" where
  "leaf_paths (JObj p kvs) =
     concat (map (\<lambda>key.
        case map_of kvs key of
          None \<Rightarrow> []
        | Some v \<Rightarrow>
            (if Object_keys v = [] then [[key]] else map ((#) key) (leaf_paths v)))
       (own_keys kvs))"
  by pat_completeness auto
termination
  by (relation "measure size") (auto simp: map_of_size)

declare leaf_paths.simps [simp del]

definition is_leaf_path :: "jsobj \<Rightarrow> string list \<Rightarrow> bool" where
  "is_leaf_path t p =
     (p \<noteq> [] \<and> (case descend t p of None \<Rightarrow> False | Some v \<Rightarrow> Object_keys v = []))"

definition same_paths :: "jsobj \<Rightarrow> jsobj \<Rightarrow> bool" where
  "same_paths t t' = (\<forall>p. (descend t p = None) = (descend t' p = None))"

text \<open>\<open>render current p\<close>: the string that \<^verbatim>\<open>recurse\<close>, called with \<open>current\<close>, builds along
  the keys \<open>p\<close>.\<close>

fun render :: "string option \<Rightarrow> string list \<Rightarrow> string" where
  "render current [] = (case current of None \<Rightarrow> [] | Some s \<Rightarrow> s)"
| "render current (key # keys) = render (Some (newKey current key)) keys"

text \<open>The empty string is not a prefix for \<^verbatim>\<open>recurse\<close>: the child of the root under the
  key \<^verbatim>\<open>''\<close>, if there is one, has to be a leaf for the paths below it to be printed in
  full.\<close>

definition empty_key_is_leaf :: "jsobj \<Rightarrow> bool" where
  "empty_key_is_leaf t = (case get t [] of Own v \<Rightarrow> Object_keys v = [] | _ \<Rightarrow> True)"

fun own_property :: "jsobj \<Rightarrow> string \<Rightarrow> jsobj option" where
  "own_property (JObj p kvs) key = map_of kvs key"

text \<open>
  \<open>dotfree t\<close>: no key of \<open>t\<close>, at any depth, contains a period.  \<open>checked_through v\<close>: every
  object below the top level of \<open>v\<close> that has keys was written as an object literal and has
  no own property \<^verbatim>\<open>constructor\<close>, and so is an object that \<^verbatim>\<open>_checkKeys\<close> enters.
  \<open>entered v ks\<close>: each of the objects met below \<open>v\<close> along the keys \<open>ks\<close> is such an
  object.
\<close>

function entered :: "jsobj \<Rightarrow> string list \<Rightarrow> bool" where
  "entered obj [] = True"
| "entered (JObj p kvs) (k # ks) =
     (case map_of kvs k of
        None \<Rightarrow> False
      | Some v \<Rightarrow> constructor_is_Object v \<and> Object_keys v \<noteq> [] \<and> entered v ks)"
  by pat_completeness auto
termination
  by (relation "measure (\<lambda>(obj, ks). length ks)") auto

function dotfree :: "jsobj \<Rightarrow> bool" where
  "dotfree (JObj p kvs) =
     list_all (\<lambda>key.
        CHR ''.'' \<notin> set key \<and>
        (case map_of kvs key of None \<Rightarrow> True | Some v \<Rightarrow> dotfree v))
       (own_keys kvs)"
  by pat_completeness auto
termination
  by (relation "measure size") (auto simp: map_of_size)

function checked_through :: "jsobj \<Rightarrow> bool" where
  "checked_through (JObj p kvs) =
     list_all (\<lambda>key.
        case map_of kvs key of
          None \<Rightarrow> True
        | Some v \<Rightarrow> Object_keys v = [] \<or> (constructor_is_Object v \<and> checked_through v))
       (own_keys kvs)"
  by pat_completeness auto
termination
  by (relation "measure size") (auto simp: map_of_size)

declare dotfree.simps [simp del] checked_through.simps [simp del]

text \<open>\<open>write_location path\<close>: the keys from the root to the property that \<^verbatim>\<open>set\<close> writes
  for a path that is not empty, the keys of the parent path and then the target.\<close>

definition write_location :: "string \<Rightarrow> string list" where
  "write_location path =
     (if shortenedKey path = [] then [] else split_on CHR ''.'' (shortenedKey path)) @
     [target path]"

text \<open>
  Sequences of calls on one mask.  \<open>run calls m\<close> is \<open>Done m'\<close> when every call returned
  and none of them resolved a name through \<^verbatim>\<open>Object.prototype\<close>: then \<open>m'\<close> is the mask
  after the last call.  It is \<open>Throw\<close> at the first call that throws.  It is \<open>Escapes\<close> from
  the first call on that follows an inherited member or the \<^verbatim>\<open>__proto__\<close> setter: such a
  call may well return, as \<^verbatim>\<open>set({}, '__proto__.constructor')\<close> does, but it reads or
  writes \<^verbatim>\<open>Object.prototype\<close> itself, which every object literal shares, so that call and
  all the calls after it are outside what this theory describes, and \<open>run\<close> says nothing
  about them.

  \<open>plain_value\<close>: the value of a \<^verbatim>\<open>set\<close> is built, below its top level, from object
  literals without an own \<^verbatim>\<open>constructor\<close>.  \<open>own_names path\<close>: no segment of the path is
  the name of a member of \<^verbatim>\<open>Object.prototype\<close>; \<open>avoids_prototype\<close>: the path of the call
  is such a path, and then the call reads and writes own properties only.
\<close>

datatype call = Set jsobj string | Unset string | Push jsval string

fun call_mask :: "call \<Rightarrow> SLAPIMask \<Rightarrow> outcome" where
  "call_mask (Set val path) m = set_mask val path m"
| "call_mask (Unset path) m = unset path m"
| "call_mask (Push prop path) m = push prop path m"

fun run :: "call list \<Rightarrow> SLAPIMask \<Rightarrow> outcome" where
  "run [] m = Done m"
| "run (c # cs) m =
     (case call_mask c m of
        Done m' \<Rightarrow> run cs m'
      | Throw e m' \<Rightarrow> Throw e m'
      | Escapes \<Rightarrow> Escapes)"

fun plain_value :: "call \<Rightarrow> bool" where
  "plain_value (Set val path) = checked_through val"
| "plain_value c = True"

definition own_names :: "string \<Rightarrow> bool" where
  "own_names path =
     list_all (\<lambda>key. key \<notin> set Object_prototype_members) (split_on CHR ''.'' path)"

fun avoids_prototype :: "call \<Rightarrow> bool" where
  "avoids_prototype (Set val path) = own_names path"
| "avoids_prototype (Unset path) = own_names path"
| "avoids_prototype (Push x path) = own_names path"

section \<open>Notions of the specification: requests\<close>

text \<open>The conditions of the specification for this class are \<^verbatim>\<open>Error\<close>s with these
  messages.\<close>

abbreviation AuthenticationUnavailable :: js_error where
  "AuthenticationUnavailable \<equiv> Error ''Invalid API token''"

abbreviation MissingCredentials :: js_error where
  "MissingCredentials \<equiv> Error ''Missing login credentials''"

abbreviation RemoteError :: "string \<Rightarrow> js_error" where
  "RemoteError msg \<equiv> Error msg"

text \<open>
  The pagination in the words of the specification: for each page index of the list in
  turn, set the current page, execute, keep the result, log and suspend for 300
  milliseconds; stop at the first execution that throws.  \<open>sleeps\<close> and \<open>fetches\<close> are the
  suspensions and the HTTP calls among the events; \<open>authed\<close>: both credentials are truthy;
  \<open>posts\<close>: the method is \<^verbatim>\<open>post\<close>; \<open>same_query\<close>: two instances agree on everything
  \<^verbatim>\<open>urlQuery\<close> reads but the offset.
\<close>

fun spec_pages ::
  "platform \<Rightarrow> int \<Rightarrow> int list \<Rightarrow> SLAPIRequest \<Rightarrow> event list \<Rightarrow>
   exec_value list completion \<times> SLAPIRequest \<times> event list" where
  "spec_pages pf pages [] r w = (Returns [], r, w)"
| "spec_pages pf pages (i # rest) r w =
     (case exec pf (page i r) w of
        (Throws e, r', w') \<Rightarrow> (Throws e, r', w')
      | (Returns v, r', w') \<Rightarrow>
          (case spec_pages pf pages rest r'
                  (w' @ [Logged (''Retrieved page '' @ show_int i @ '' of '' @ show_int pages @
                                 '' in '' @ duration r'),
                         Slept 300]) of
             (Throws e, r'', w'') \<Rightarrow> (Throws e, r'', w'')
           | (Returns vs, r'', w'') \<Rightarrow> (Returns (v # vs), r'', w'')))"

fun sleeps :: "event list \<Rightarrow> int list" where
  "sleeps [] = []"
| "sleeps (Slept ms # w) = ms # sleeps w"
| "sleeps (e # w) = sleeps w"

fun fetches :: "event list \<Rightarrow> http_request list" where
  "fetches [] = []"
| "fetches (Fetched q # w) = q # fetches w"
| "fetches (e # w) = fetches w"

definition authed :: "SLAPIRequest \<Rightarrow> bool" where
  "authed r = (truthy (username (config r)) \<and> truthy (password (config r)))"

definition posts :: "SLAPIRequest \<Rightarrow> bool" where
  "posts r =
     (to_lower (if method_opt (options r) = [] then ''get'' else method_opt (options r)) = ''post'')"

definition same_query :: "SLAPIRequest \<Rightarrow> SLAPIRequest \<Rightarrow> bool" where
  "same_query r r' =
     (config r' = config r \<and> mask r' = mask r \<and>
      filter_opt (options r') = filter_opt (options r) \<and>
      limit (options r') = limit (options r) \<and>
      method_opt (options r') = method_opt (options r))"

text \<open>A platform and an instance to run the class on: every request is answered, with
  a JSON body chosen from the request.\<close>

definition test_platform :: "(http_request \<Rightarrow> jsval) \<Rightarrow> platform" where
  "test_platform answer =
     \<lparr>Date_now = (\<lambda>w. 1000 + 7 * int (length w)),
      fetch_result = (\<lambda>w q. Some \<lparr>total_items = None, json_body = Some (answer q)\<rparr>),
      btoa = (\<lambda>s. Some s),
      JSON_stringify = (\<lambda>v. if v = JData [] then Some ''{}'' else None)\<rparr>"

definition test_request :: "jsval \<Rightarrow> jsval \<Rightarrow> SLAPIRequest" where
  "test_request u p =
     new_SLAPIRequest (JStr ''S'') (JStr ''F'') (Some new_SLAPIMask) (JData []) u p"

section \<open>Lists of keys and paths\<close>

lemma set_insertion_keys: "set (insertion_keys kvs) = fst ` set kvs"
  by (induction kvs rule: insertion_keys.induct) auto

lemma distinct_insertion_keys: "distinct (insertion_keys kvs)"
  by (induction kvs rule: insertion_keys.induct) (auto simp: distinct_removeAll)

lemma set_own_keys: "set (own_keys kvs) = fst ` set kvs"
  by (auto simp: own_keys_def Let_def set_insertion_keys)

lemma distinct_own_keys: "distinct (own_keys kvs)"
  by (auto simp: own_keys_def Let_def distinct_insertion_keys)

lemma own_keys_Nil: "own_keys kvs = [] \<longleftrightarrow> kvs = []"
  using set_own_keys [of kvs] by (metis image_is_empty set_empty)

lemma own_keys_map_of: "k \<in> set (own_keys kvs) \<longleftrightarrow> map_of kvs k \<noteq> None"
  by (simp add: set_own_keys map_of_eq_None_iff)

lemma split_on_not_Nil: "split_on c s \<noteq> []"
  by (induction s) (auto split: list.splits)

lemma split_on_free: "w \<in> set (split_on c s) \<Longrightarrow> c \<notin> set w"
  by (induction s arbitrary: w) (auto split: list.splits if_splits)

lemma join_split_on: "join [c] (split_on c s) = s"
proof (induction s)
  case Nil
  show ?case by simp
next
  case (Cons a s)
  show ?case
  proof (cases "a = c")
    case True
    with Cons show ?thesis by (cases "split_on c s") (auto simp: split_on_not_Nil)
  next
    case False
    obtain w ws where ws: "split_on c s = w # ws"
      using split_on_not_Nil [of c s] by (cases "split_on c s") auto
    with Cons False show ?thesis by (cases ws) auto
  qed
qed

lemma split_on_free_word: "c \<notin> set w \<Longrightarrow> split_on c w = [w]"
  by (induction w) auto

lemma split_on_append: "c \<notin> set w \<Longrightarrow> split_on c (w @ c # s) = w # split_on c s"
  by (induction w) auto

lemma split_on_join:
  "ws \<noteq> [] \<Longrightarrow> \<forall>w\<in>set ws. c \<notin> set w \<Longrightarrow> split_on c (join [c] ws) = ws"
proof (induction ws)
  case Nil
  then show ?case by simp
next
  case (Cons x ws)
  show ?case
  proof (cases ws)
    case Nil
    with Cons.prems show ?thesis by (simp add: split_on_free_word)
  next
    case (Cons y zs)
    with Cons.IH Cons.prems show ?thesis by (simp add: split_on_append)
  qed
qed

section \<open>Validation\<close>

lemma dotfree_iff:
  "dotfree (JObj p kvs) \<longleftrightarrow>
   (\<forall>k v. map_of kvs k = Some v \<longrightarrow> CHR ''.'' \<notin> set k \<and> dotfree v)"
  by (auto simp: dotfree.simps list_all_iff own_keys_map_of split: option.splits)

lemma checked_through_iff:
  "checked_through (JObj p kvs) \<longleftrightarrow>
   (\<forall>k v. map_of kvs k = Some v \<longrightarrow>
      Object_keys v = [] \<or> (constructor_is_Object v \<and> checked_through v))"
  by (auto simp: checked_through.simps list_all_iff own_keys_map_of split: option.splits)

lemma checkKeys_iff:
  "checkKeys (JObj p kvs) \<longleftrightarrow>
   (\<forall>k v. map_of kvs k = Some v \<longrightarrow>
      CHR ''.'' \<notin> set k \<and> (constructor_is_Object v \<and> Object_keys v \<noteq> [] \<longrightarrow> checkKeys v))"
  by (auto simp: checkKeys.simps list_all_iff own_keys_map_of split: option.splits)

lemma dotfree_leaf: "Object_keys v = [] \<Longrightarrow> dotfree v"
  by (cases v) (simp add: dotfree.simps)

lemma checkKeys_dotfree: "checked_through v \<Longrightarrow> checkKeys v = dotfree v"
proof (induction v rule: checkKeys.induct)
  case (1 p kvs)
  have "(constructor_is_Object v \<and> Object_keys v \<noteq> [] \<longrightarrow> checkKeys v) = dotfree v"
    if "map_of kvs k = Some v" for k v
  proof (cases "Object_keys v = []")
    case True
    then show ?thesis by (simp add: dotfree_leaf)
  next
    case False
    from that 1(2) have c: "constructor_is_Object v" "checked_through v"
      using False by (auto simp: checked_through_iff)
    from that have "k \<in> set (own_keys kvs)" by (simp add: own_keys_map_of)
    from 1(1) [OF this that _ c(2)] c(1) False show ?thesis by simp
  qed
  then show ?case
    unfolding checkKeys_iff [of p kvs] dotfree_iff [of p kvs] by blast
qed

section \<open>Serialization\<close>

lemma recurse_render: "recurse t current = map (render current) (leaf_paths t)"
proof (induction t current rule: recurse.induct)
  case (1 p kvs current)
  have "(case map_of kvs key of None \<Rightarrow> []
         | Some v \<Rightarrow> if Object_keys v \<noteq> [] then recurse v (Some (newKey current key))
                     else [newKey current key]) =
        map (render current) (case map_of kvs key of None \<Rightarrow> []
         | Some v \<Rightarrow> if Object_keys v = [] then [[key]] else map ((#) key) (leaf_paths v))"
    if "key \<in> set (own_keys kvs)" for key
    using that 1 by (cases "map_of kvs key") auto
  then show ?case
    by (simp add: recurse.simps leaf_paths.simps map_concat cong: map_cong)
qed

lemma render_Some: "s \<noteq> [] \<Longrightarrow> render (Some s) ks = s @ concat (map ((@) ''.'') ks)"
  by (induction ks arbitrary: s) auto

lemma join_concat: "join ''.'' (k # ks) = k @ concat (map ((@) ''.'') ks)"
  by (induction ks arbitrary: k) auto

lemma render_None: "hd p \<noteq> [] \<or> length p = 1 \<Longrightarrow> render None p = join ''.'' p"
  by (cases p) (auto simp: render_Some join_concat)

lemma descend_leaf: "Object_keys v = [] \<Longrightarrow> ks \<noteq> [] \<Longrightarrow> descend v ks = None"
  by (cases v; cases ks) (auto simp: own_keys_Nil)

lemma entry_paths_head:
  "q \<in> set (case map_of kvs x of None \<Rightarrow> []
       | Some v \<Rightarrow> if Object_keys v = [] then [[x]] else map ((#) x) (leaf_paths v))
   \<Longrightarrow> \<exists>qs. q = x # qs"
  by (cases "map_of kvs x") (auto split: if_splits)

lemma set_leaf_paths:
  "set (leaf_paths (JObj pr kvs)) =
   (\<Union>x\<in>set (own_keys kvs). set (case map_of kvs x of None \<Rightarrow> []
       | Some v \<Rightarrow> if Object_keys v = [] then [[x]] else map ((#) x) (leaf_paths v)))"
  by (simp add: leaf_paths.simps)

lemma Nil_notin_leaf_paths: "[] \<notin> set (leaf_paths t)"
proof
  assume a: "[] \<in> set (leaf_paths t)"
  obtain pr kvs where t: "t = JObj pr kvs" by (cases t)
  from a obtain x where "[] \<in> set (case map_of kvs x of None \<Rightarrow> []
       | Some v \<Rightarrow> if Object_keys v = [] then [[x]] else map ((#) x) (leaf_paths v))"
    unfolding t set_leaf_paths by blast
  from entry_paths_head [OF this] show False by simp
qed

lemma Cons_in_leaf_paths:
  "k # ks \<in> set (leaf_paths (JObj pr kvs)) \<longleftrightarrow>
   (case map_of kvs k of
      None \<Rightarrow> False
    | Some v \<Rightarrow> if Object_keys v = [] then ks = [] else ks \<in> set (leaf_paths v))"
  (is "?L \<longleftrightarrow> ?R")
proof
  assume ?L
  then obtain x where x: "x \<in> set (own_keys kvs)"
    and in_x: "k # ks \<in> set (case map_of kvs x of None \<Rightarrow> []
       | Some v \<Rightarrow> if Object_keys v = [] then [[x]] else map ((#) x) (leaf_paths v))"
    unfolding set_leaf_paths by blast
  from entry_paths_head [OF in_x] have xk: "x = k" by simp
  show ?R
  proof (cases "map_of kvs k")
    case None
    with in_x xk show ?thesis by simp
  next
    case (Some v)
    with in_x xk show ?thesis by (cases "Object_keys v = []") auto
  qed
next
  assume r: ?R
  then obtain v where v: "map_of kvs k = Some v" by (auto split: option.splits)
  then have "k \<in> set (own_keys kvs)" by (simp add: own_keys_map_of)
  moreover have "k # ks \<in> set (case map_of kvs k of None \<Rightarrow> []
       | Some v \<Rightarrow> if Object_keys v = [] then [[k]] else map ((#) k) (leaf_paths v))"
    using r v by (auto split: if_splits)
  ultimately show ?L unfolding set_leaf_paths by blast
qed

lemma leaf_paths_iff: "p \<in> set (leaf_paths t) \<longleftrightarrow> is_leaf_path t p"
proof (induction t arbitrary: p rule: leaf_paths.induct)
  case (1 pr kvs)
  show ?case
  proof (cases p)
    case Nil
    then show ?thesis using Nil_notin_leaf_paths by (simp add: is_leaf_path_def)
  next
    case (Cons k ks)
    show ?thesis
    proof (cases "map_of kvs k")
      case None
      then show ?thesis using Cons
        by (simp add: Cons_in_leaf_paths is_leaf_path_def)
    next
      case (Some v)
      then have k: "k \<in> set (own_keys kvs)" by (simp add: own_keys_map_of)
      show ?thesis
      proof (cases "Object_keys v = []")
        case True
        then show ?thesis using Cons Some
          by (cases ks) (simp_all add: Cons_in_leaf_paths is_leaf_path_def descend_leaf)
      next
        case False
        have "k # ks \<in> set (leaf_paths (JObj pr kvs)) \<longleftrightarrow> ks \<in> set (leaf_paths v)"
          using Some False by (simp add: Cons_in_leaf_paths)
        also have "\<dots> \<longleftrightarrow> is_leaf_path v ks"
          using 1 [OF k Some False] .
        also have "\<dots> \<longleftrightarrow> is_leaf_path (JObj pr kvs) (k # ks)"
          using Some False by (cases ks) (auto simp: is_leaf_path_def)
        finally show ?thesis using Cons by simp
      qed
    qed
  qed
qed

lemma distinct_concat_heads:
  assumes "distinct ks"
    and "\<And>k. k \<in> set ks \<Longrightarrow> distinct (f k)"
    and "\<And>k p. k \<in> set ks \<Longrightarrow> p \<in> set (f k) \<Longrightarrow> p \<noteq> [] \<and> hd p = k"
  shows "distinct (concat (map f ks))"
  using assms
proof (induction ks)
  case Nil
  then show ?case by simp
next
  case (Cons k ks)
  have "set (f k) \<inter> (\<Union>x\<in>set ks. set (f x)) = {}"
  proof (rule ccontr)
    assume "set (f k) \<inter> (\<Union>x\<in>set ks. set (f x)) \<noteq> {}"
    then obtain p x where "p \<in> set (f k)" "x \<in> set ks" "p \<in> set (f x)" by auto
    then have "hd p = k" "hd p = x" using Cons.prems(3) by auto
    with \<open>x \<in> set ks\<close> Cons.prems(1) show False by auto
  qed
  moreover have "distinct (concat (map f ks))"
    using Cons by auto
  ultimately show ?case using Cons.prems(2) by auto
qed

lemma distinct_leaf_paths: "distinct (leaf_paths t)"
proof (induction t rule: leaf_paths.induct)
  case (1 p kvs)
  show ?case
    unfolding leaf_paths.simps
  proof (rule distinct_concat_heads)
    show "distinct (own_keys kvs)" by (rule distinct_own_keys)
  next
    fix k assume "k \<in> set (own_keys kvs)"
    then show "distinct (case map_of kvs k of None \<Rightarrow> []
       | Some v \<Rightarrow> if Object_keys v = [] then [[k]] else map ((#) k) (leaf_paths v))"
      using 1 by (auto split: option.splits simp: distinct_map)
  next
    fix k q assume "k \<in> set (own_keys kvs)"
      and "q \<in> set (case map_of kvs k of None \<Rightarrow> []
       | Some v \<Rightarrow> if Object_keys v = [] then [[k]] else map ((#) k) (leaf_paths v))"
    then show "q \<noteq> [] \<and> hd q = k"
      by (auto split: option.splits if_splits)
  qed
qed

lemma leaf_path_shape:
  assumes "empty_key_is_leaf t" and "p \<in> set (leaf_paths t)"
  shows "hd p \<noteq> [] \<or> length p = 1"
proof (cases p)
  case Nil
  with assms(2) show ?thesis using Nil_notin_leaf_paths by auto
next
  case (Cons k ks)
  obtain pr kvs where t: "t = JObj pr kvs" by (cases t)
  show ?thesis
  proof (cases "k = []")
    case True
    then show ?thesis using assms Cons t
      by (auto simp: Cons_in_leaf_paths empty_key_is_leaf_def split: option.splits if_splits)
  next
    case False
    with Cons show ?thesis by simp
  qed
qed

lemma toString_leaf_paths_general:
  "toString m = ''mask['' @ join '','' (map (render None) (leaf_paths (maskObj m))) @ '']''"
  by (simp add: toString_def objToStr_def recurse_render)

lemma toString_leaf_paths:
  assumes "empty_key_is_leaf (maskObj m)"
  shows "toString m = ''mask['' @ join '','' (map (join ''.'') (leaf_paths (maskObj m))) @ '']''"
proof -
  have "map (render None) (leaf_paths (maskObj m)) = map (join ''.'') (leaf_paths (maskObj m))"
    by (rule map_cong [OF refl]) (use leaf_path_shape [OF assms] in \<open>simp add: render_None\<close>)
  then show ?thesis by (simp only: toString_leaf_paths_general)
qed

lemma leaf_no_child:
  "descend t p = Some v \<Longrightarrow> Object_keys v = [] \<longleftrightarrow> (\<forall>k. descend t (p @ [k]) = None)"
proof (induction t p rule: descend.induct)
  case (1 obj)
  obtain pr kvs where "obj = JObj pr kvs" by (cases obj)
  with 1 show ?case
    by (auto simp: own_keys_Nil split: option.splits) (metis list.exhaust map_of_Cons_code(2) option.distinct(1) surj_pair)
next
  case (2 p kvs k ks)
  then show ?case by (auto split: option.splits)
qed

lemma same_paths_leaf:
  assumes "same_paths t t'" and "is_leaf_path t p"
  shows "is_leaf_path t' p"
proof -
  from assms(2) obtain v where v: "p \<noteq> []" "descend t p = Some v" "Object_keys v = []"
    by (auto simp: is_leaf_path_def split: option.splits)
  then have none: "\<forall>k. descend t (p @ [k]) = None" using leaf_no_child by blast
  from v(2) assms(1) obtain v' where v': "descend t' p = Some v'"
    unfolding same_paths_def by (metis option.distinct(1) option.exhaust)
  from none assms(1) have "\<forall>k. descend t' (p @ [k]) = None"
    unfolding same_paths_def by blast
  then have "Object_keys v' = []" using leaf_no_child [OF v'] by blast
  with v(1) v' show ?thesis by (simp add: is_leaf_path_def)
qed

lemma same_paths_sym: "same_paths t t' \<Longrightarrow> same_paths t' t"
  by (simp add: same_paths_def)

text \<open>
  Claim C1, as amended.  For every mask in which the child of the root under the empty
  key, if any, is a leaf: \<^verbatim>\<open>toString\<close> returns \<^verbatim>\<open>mask[\<close>, the comma-joined list of the
  dot-joined paths from the root to the leaves, and \<^verbatim>\<open>]\<close>; the paths listed are exactly
  the paths that end in an object without keys, each once; a mask without keys gives
  \<^verbatim>\<open>mask[]\<close>; and two masks that hold the same paths list the same set of leaf paths.
\<close>

theorem toString_lists_leaf_paths:
  assumes "empty_key_is_leaf (maskObj m)"
  shows "toString m = ''mask['' @ join '','' (map (join ''.'') (leaf_paths (maskObj m))) @ '']'' \<and>
         set (leaf_paths (maskObj m)) = {p. is_leaf_path (maskObj m) p} \<and>
         distinct (leaf_paths (maskObj m)) \<and>
         (Object_keys (maskObj m) = [] \<longrightarrow> toString m = ''mask[]'') \<and>
         (\<forall>m'. same_paths (maskObj m) (maskObj m') \<longrightarrow>
               set (leaf_paths (maskObj m')) = set (leaf_paths (maskObj m)))"
proof (intro conjI allI impI)
  show "toString m = ''mask['' @ join '','' (map (join ''.'') (leaf_paths (maskObj m))) @ '']''"
    using assms by (rule toString_leaf_paths)
  show "set (leaf_paths (maskObj m)) = {p. is_leaf_path (maskObj m) p}"
    by (auto simp: leaf_paths_iff)
  show "distinct (leaf_paths (maskObj m))"
    by (rule distinct_leaf_paths)
  show "toString m = ''mask[]''" if "Object_keys (maskObj m) = []"
  proof -
    obtain p kvs where "maskObj m = JObj p kvs" by (cases "maskObj m")
    with that show ?thesis
      by (simp add: toString_def objToStr_def recurse.simps)
  qed
  show "set (leaf_paths (maskObj m')) = set (leaf_paths (maskObj m))"
    if sp: "same_paths (maskObj m) (maskObj m')" for m'
  proof -
    have "is_leaf_path (maskObj m') p = is_leaf_path (maskObj m) p" for p
      using same_paths_leaf [OF sp] same_paths_leaf [OF same_paths_sym [OF sp]] by blast
    then show ?thesis by (auto simp: leaf_paths_iff)
  qed
qed

theorem toString_lists_leaf_paths_witness:
  "empty_key_is_leaf
     (JObj NullPrototype
       [(''a'', JObj NullPrototype [(''b'', JObj ObjectPrototype [])]),
        (''c'', JObj ObjectPrototype [])]) \<and>
   toString \<lparr>maskObj = JObj NullPrototype
       [(''a'', JObj NullPrototype [(''b'', JObj ObjectPrototype [])]),
        (''c'', JObj ObjectPrototype [])]\<rparr> = ''mask[a.b,c]''"
proof -
  let ?t = "JObj NullPrototype
       [(''a'', JObj NullPrototype [(''b'', JObj ObjectPrototype [])]),
        (''c'', JObj ObjectPrototype [])]"
  have h: "empty_key_is_leaf ?t" by code_simp
  have l: "leaf_paths ?t = [[''a'', ''b''], [''c'']]" by code_simp
  from h have "empty_key_is_leaf (maskObj \<lparr>maskObj = ?t\<rparr>)" by simp
  from toString_lists_leaf_paths [OF this, THEN conjunct1] l
  have "toString \<lparr>maskObj = ?t\<rparr> = ''mask[a.b,c]''" by simp
  with h show ?thesis by blast
qed

text \<open>
  Claim C1 as stated fails where a key of the root is the empty string and its child has
  keys: \<^verbatim>\<open>set({'': {a: {}}})\<close> is printed \<^verbatim>\<open>mask[a]\<close>, and the dot-joined path of the leaf is
  \<^verbatim>\<open>.a\<close>.
\<close>

theorem toString_drops_empty_prefix:
  "toString \<lparr>maskObj = JObj ObjectPrototype
       [([], JObj ObjectPrototype [(''a'', JObj ObjectPrototype [])])]\<rparr> = ''mask[a]'' \<and>
   ''mask['' @ join '','' (map (join ''.'') (leaf_paths (JObj ObjectPrototype
       [([], JObj ObjectPrototype [(''a'', JObj ObjectPrototype [])])]))) @ '']'' = ''mask[.a]''"
  by code_simp

section \<open>Path resolution\<close>

lemma walk_absent:
  "i < length segs \<Longrightarrow> descend root (take i segs) = Some obj \<Longrightarrow>
   get obj (segs ! i) = Missing \<Longrightarrow> walk loc root segs = Absent (segs ! i)"
proof (induction segs arbitrary: i root loc)
  case Nil
  then show ?case by simp
next
  case (Cons k ks)
  show ?case
  proof (cases i)
    case 0
    with Cons.prems show ?thesis by simp
  next
    case (Suc j)
    obtain p kvs where root: "root = JObj p kvs" by (cases root)
    from Cons.prems Suc root obtain child where
      child: "map_of kvs k = Some child" "descend child (take j ks) = Some obj"
      by (auto split: option.splits)
    from Cons.IH [of j child "loc @ [k]"] Cons.prems Suc child
    show ?thesis by (simp add: root)
  qed
qed

lemma walk_reached:
  "walk loc0 r segs = Reached loc ref \<Longrightarrow> loc = loc0 @ segs \<and> descend r segs = Some ref"
proof (induction segs arbitrary: loc0 r)
  case Nil
  then show ?case by simp
next
  case (Cons k ks)
  obtain p kvs where r: "r = JObj p kvs" by (cases r)
  from Cons.prems r obtain v where v: "map_of kvs k = Some v" "walk (loc0 @ [k]) v ks = Reached loc ref"
    by (auto split: option.splits if_splits)
  from Cons.IH [OF v(2)] v(1) show ?case by (simp add: r)
qed

lemma path_not_Nil: "join ''.'' (butlast (split_on CHR ''.'' path)) \<noteq> [] \<Longrightarrow> path \<noteq> []"
  by auto

lemma split_shortenedKey:
  "butlast (split_on CHR ''.'' path) \<noteq> [] \<Longrightarrow>
   split_on CHR ''.'' (shortenedKey path) = butlast (split_on CHR ''.'' path)"
  unfolding shortenedKey_def
  by (rule split_on_join) (auto dest: in_set_butlastD split_on_free)

text \<open>
  Claim C4, as amended.  Let \<open>segs\<close> be the segments of the path without the last one, and
  let their dot-joined string, the parent path, not be empty.  If the value passes
  validation and, walking \<open>segs\<close> from the root, the object reached has no value for the
  next segment (no own property and no member inherited from \<^verbatim>\<open>Object.prototype\<close>), then
  \<^verbatim>\<open>set\<close> throws the \<^verbatim>\<open>ReferenceError\<close> that names this segment, the parent path and the
  serialized mask, and the mask is unchanged.
\<close>

theorem set_mask_PathNotFound:
  assumes "checkKeys val"
    and "segs = butlast (split_on CHR ''.'' path)"
    and "join ''.'' segs \<noteq> []"
    and "i < length segs"
    and "descend (maskObj m) (take i segs) = Some obj"
    and "get obj (segs ! i) = Missing"
  shows "set_mask val path m = Throw (PathNotFound (segs ! i) (join ''.'' segs) (toString m)) m"
proof -
  have p: "path \<noteq> []" using assms(2,3) by auto
  have sk: "shortenedKey path = join ''.'' segs" by (simp add: shortenedKey_def assms(2))
  have "segs \<noteq> []" using assms(4) by auto
  then have sp: "split_on CHR ''.'' (shortenedKey path) = segs"
    using split_shortenedKey [of path] assms(2) by simp
  have "walk [] (maskObj m) segs = Absent (segs ! i)"
    using walk_absent [OF assms(4,5,6)] .
  then have "parent_ref m path = Raise (PathNotFound (segs ! i) (join ''.'' segs) (toString m))"
    using assms(3) sk sp by (simp add: parent_ref_def getRef_def)
  then show ?thesis using assms(1) p by (simp add: set_mask_def)
qed

theorem set_mask_PathNotFound_witness:
  "set_mask (JObj ObjectPrototype []) ''a.b.c''
     \<lparr>maskObj = JObj NullPrototype [(''a'', JObj ObjectPrototype [])]\<rparr> =
   Throw (PathNotFound ''b'' ''a.b'' ''mask[a]'')
     \<lparr>maskObj = JObj NullPrototype [(''a'', JObj ObjectPrototype [])]\<rparr>"
proof -
  let ?m = "\<lparr>maskObj = JObj NullPrototype [(''a'', JObj ObjectPrototype [])]\<rparr>"
  have 1: "checkKeys (JObj ObjectPrototype [])" by code_simp
  have 2: "[''a'', ''b''] = butlast (split_on CHR ''.'' ''a.b.c'')" by simp
  have 3: "join ''.'' [''a'', ''b''] \<noteq> []" by simp
  have 4: "(1::nat) < length [''a'', ''b'']" by simp
  have 5: "descend (maskObj ?m) (take 1 [''a'', ''b'']) = Some (JObj ObjectPrototype [])" by simp
  have 6: "get (JObj ObjectPrototype []) ([''a'', ''b''] ! 1) = Missing"
    by (simp add: Object_prototype_members_def)
  have 7: "toString ?m = ''mask[a]''" by code_simp
  from set_mask_PathNotFound [OF 1 2 3 4 5 6] 7 show ?thesis by simp
qed

text \<open>
  Claim C4 as stated fails for a path whose parent path is the empty string: the only
  segment before the last of \<^verbatim>\<open>.c\<close> is \<^verbatim>\<open>''\<close>, no such key is in the new mask, and
  \<^verbatim>\<open>set({}, '.c')\<close> assigns at the root.  Where the error is thrown, as for \<^verbatim>\<open>a.b.c\<close> on
  the new mask, the path it names is the parent path \<^verbatim>\<open>a.b\<close>, not the path given.
\<close>

theorem set_mask_empty_parent_counterexample:
  "butlast (split_on CHR ''.'' ''.c'') = [[]] \<and>
   get (maskObj new_SLAPIMask) [] = Missing \<and>
   set_mask (JObj ObjectPrototype []) ''.c'' new_SLAPIMask =
     Done \<lparr>maskObj = JObj NullPrototype [(''c'', JObj ObjectPrototype [])]\<rparr> \<and>
   set_mask (JObj ObjectPrototype []) ''a.b.c'' new_SLAPIMask =
     Throw (PathNotFound ''a'' ''a.b'' ''mask[]'') new_SLAPIMask"
  by code_simp

section \<open>Keys with periods\<close>

lemma set_mask_Throw:
  "set_mask v p m = Throw e m' \<Longrightarrow>
   m' = m \<and> (e = SyntaxViolation \<or> (\<exists>key path shown. e = PathNotFound key path shown))"
  by (auto simp: set_mask_def parent_ref_def getRef_def
           split: if_splits result.splits walk_result.splits)

lemma tempObj_loop_strings:
  "tempObj_loop (JObj pr kvs) (map JStr names) =
   Some (JObj pr (fold (\<lambda>n. AList.update n (JObj ObjectPrototype [])) names kvs))"
  by (induction names arbitrary: kvs) auto

lemma map_of_fold_update:
  "map_of (fold (\<lambda>n. AList.update n v) names kvs) k =
   (if k \<in> set names then Some v else map_of kvs k)"
  by (induction names arbitrary: kvs) (auto simp: update_conv')

lemma descend_append:
  "descend t (p @ q) = (case descend t p of None \<Rightarrow> None | Some r \<Rightarrow> descend r q)"
  by (induction t p rule: descend.induct) (auto split: option.splits)

lemma descend_modify_at:
  "descend (modify_at t loc f) loc = map_option f (descend t loc)"
  by (induction t loc f rule: modify_at.induct) (auto simp: update_conv' split: option.splits)

lemma parent_ref_Ok:
  assumes "parent_ref m path = Ok (loc, ref)"
  shows "loc @ [target path] = write_location path \<and> descend (maskObj m) loc = Some ref"
proof (cases "shortenedKey path = []")
  case True
  with assms show ?thesis by (auto simp: parent_ref_def write_location_def)
next
  case False
  with assms have "walk [] (maskObj m) (split_on CHR ''.'' (shortenedKey path)) = Reached loc ref"
    by (auto simp: parent_ref_def getRef_def split: walk_result.splits)
  from walk_reached [OF this] False show ?thesis by (simp add: write_location_def)
qed

lemma set_mask_Done:
  assumes "set_mask v path m = Done m'"
  shows "if path = [] then maskObj m' = v else descend (maskObj m') (write_location path) = Some v"
proof (cases "path = []")
  case True
  with assms show ?thesis by (auto simp: set_mask_def split: if_splits)
next
  case False
  with assms obtain loc ref where pr: "parent_ref m path = Ok (loc, ref)"
    and m': "m' = m\<lparr>maskObj := modify_at (maskObj m) loc (\<lambda>r. put r (target path) v)\<rparr>"
    by (auto simp: set_mask_def split: if_splits result.splits)
  from parent_ref_Ok [OF pr] have loc: "loc @ [target path] = write_location path"
    and ref: "descend (maskObj m) loc = Some ref" by auto
  obtain p kvs where r: "ref = JObj p kvs" by (cases ref)
  have "descend (maskObj m') (loc @ [target path]) = Some v"
    unfolding descend_append m' by (simp add: descend_modify_at ref r update_conv')
  with loc False show ?thesis by simp
qed

lemma checkKeys_tempObj:
  "checkKeys (JObj pr (fold (\<lambda>n. AList.update n (JObj ObjectPrototype [])) names [])) \<longleftrightarrow>
   (\<forall>n\<in>set names. CHR ''.'' \<notin> set n)"
  by (auto simp: checkKeys_iff map_of_fold_update own_keys_def split: if_splits)

lemma entered_rejects:
  "entered val ks \<Longrightarrow> descend val ks = Some obj \<Longrightarrow> own_property obj k \<noteq> None \<Longrightarrow>
   CHR ''.'' \<in> set k \<Longrightarrow> \<not> checkKeys val"
proof (induction val ks rule: entered.induct)
  case (1 obj')
  obtain p kvs where o: "obj = JObj p kvs" by (cases obj)
  from 1 o show ?case by (auto simp: checkKeys_iff)
next
  case (2 p kvs k0 ks)
  from 2(2) obtain v where v: "map_of kvs k0 = Some v" "constructor_is_Object v"
    "Object_keys v \<noteq> []" "entered v ks"
    by (auto split: option.splits)
  from 2(3) v(1) have "descend v ks = Some obj" by simp
  from 2(1) [OF v(1) v(4) this 2(4) 2(5)] have "\<not> checkKeys v" .
  with v show ?case by (auto simp: checkKeys_iff)
qed

text \<open>
  Claim C2, as amended.  For every mask and every path: \<^verbatim>\<open>set\<close> with a value that has a key
  with a period, at the top level or in an object below it that is reached through object
  literals with keys and with no own \<^verbatim>\<open>constructor\<close> property, throws the \<^verbatim>\<open>SyntaxError\<close>
  and leaves the mask as it was, whatever the path; so does \<^verbatim>\<open>push\<close> with a name, or an
  array of names, one of which has a period.
\<close>

theorem set_mask_SyntaxViolation:
  "(entered val ks \<and> descend val ks = Some obj \<and> own_property obj k \<noteq> None \<and>
    CHR ''.'' \<in> set k \<longrightarrow> set_mask val path m = Throw SyntaxViolation m) \<and>
   (CHR ''.'' \<in> set s \<longrightarrow> push (JStr s) path m = Throw SyntaxViolation m) \<and>
   ((\<exists>n\<in>set names. CHR ''.'' \<in> set n) \<longrightarrow>
      push (JArr (map JStr names)) path m = Throw SyntaxViolation m)"
proof (intro conjI impI)
  show "set_mask val path m = Throw SyntaxViolation m"
    if "entered val ks \<and> descend val ks = Some obj \<and> own_property obj k \<noteq> None \<and>
        CHR ''.'' \<in> set k"
  proof -
    from that have "\<not> checkKeys val" using entered_rejects by blast
    then show ?thesis by (simp add: set_mask_def)
  qed
  show "push (JStr s) path m = Throw SyntaxViolation m" if "CHR ''.'' \<in> set s"
  proof -
    from that have "s \<noteq> []" by auto
    moreover have "\<not> checkKeys (JObj NullPrototype [(s, JObj ObjectPrototype [])])"
      using that checkKeys_tempObj [of NullPrototype "[s]"] by simp
    ultimately show ?thesis by (simp add: push_def set_mask_def)
  qed
  show "push (JArr (map JStr names)) path m = Throw SyntaxViolation m"
    if "\<exists>n\<in>set names. CHR ''.'' \<in> set n"
    using that by (simp add: push_def tempObj_loop_strings set_mask_def checkKeys_tempObj)
qed

theorem set_mask_SyntaxViolation_witness:
  "entered (JObj ObjectPrototype
     [(''a'', JObj ObjectPrototype [(''b'', JObj ObjectPrototype
        [(''c.d'', JObj ObjectPrototype [])])])]) [''a'', ''b''] \<and>
   set_mask (JObj ObjectPrototype
     [(''a'', JObj ObjectPrototype [(''b'', JObj ObjectPrototype
        [(''c.d'', JObj ObjectPrototype [])])])]) ''x.y'' new_SLAPIMask =
     Throw SyntaxViolation new_SLAPIMask \<and>
   push (JStr ''a.b'') [] new_SLAPIMask = Throw SyntaxViolation new_SLAPIMask \<and>
   push (JArr [JStr ''a'', JStr ''b.c'']) [] new_SLAPIMask = Throw SyntaxViolation new_SLAPIMask"
proof -
  let ?v = "JObj ObjectPrototype
     [(''a'', JObj ObjectPrototype [(''b'', JObj ObjectPrototype
        [(''c.d'', JObj ObjectPrototype [])])])]"
  let ?obj = "JObj ObjectPrototype [(''c.d'', JObj ObjectPrototype [])]"
  have 1: "entered ?v [''a'', ''b'']" by code_simp
  have 2: "descend ?v [''a'', ''b''] = Some ?obj" by simp
  have 3: "own_property ?obj ''c.d'' \<noteq> None" by simp
  have 4: "CHR ''.'' \<in> set ''c.d''" "CHR ''.'' \<in> set ''a.b''" by simp_all
  have 5: "\<exists>n\<in>set [''a'', ''b.c'']. CHR ''.'' \<in> set n" by simp
  from set_mask_SyntaxViolation
         [of ?v "[''a'', ''b'']" ?obj "''c.d''" "''x.y''" new_SLAPIMask "''a.b''" "[''a'', ''b.c'']"]
    1 2 3 4
  have a: "set_mask ?v ''x.y'' new_SLAPIMask = Throw SyntaxViolation new_SLAPIMask"
    by blast
  from set_mask_SyntaxViolation
         [of ?v "[''a'', ''b'']" ?obj "''c.d''" "[]" new_SLAPIMask "''a.b''" "[''a'', ''b.c'']"]
    4 5
  have b: "push (JStr ''a.b'') [] new_SLAPIMask = Throw SyntaxViolation new_SLAPIMask"
    and c: "push (JArr (map JStr [''a'', ''b.c''])) [] new_SLAPIMask =
            Throw SyntaxViolation new_SLAPIMask"
    by blast+
  from 1 a b c show ?thesis by simp
qed

text \<open>
  Claim C2 as stated fails for a key with a period inside a nested object that has no
  prototype: \<^verbatim>\<open>_checkKeys\<close> enters a nested object only if its \<^verbatim>\<open>constructor\<close> is
  \<^verbatim>\<open>Object\<close>, so the call returns and the key is in the mask.
\<close>

theorem checkKeys_skips_null_prototype:
  "\<not> dotfree (JObj ObjectPrototype
      [(''a'', JObj NullPrototype [(''b.c'', JObj ObjectPrototype [])])]) \<and>
   set_mask (JObj ObjectPrototype
      [(''a'', JObj NullPrototype [(''b.c'', JObj ObjectPrototype [])])]) [] new_SLAPIMask =
   Done \<lparr>maskObj = JObj ObjectPrototype
      [(''a'', JObj NullPrototype [(''b.c'', JObj ObjectPrototype [])])]\<rparr>"
  by code_simp

lemma checkKeys_imp_dotfree: "checked_through v \<Longrightarrow> checkKeys v \<Longrightarrow> dotfree v"
  by (simp add: checkKeys_dotfree)

lemma dotfree_put:
  "dotfree r \<Longrightarrow> CHR ''.'' \<notin> set k \<Longrightarrow> dotfree v \<Longrightarrow> dotfree (put r k v)"
  by (cases r) (auto simp: dotfree_iff update_conv' split: if_splits)

lemma dotfree_del: "dotfree r \<Longrightarrow> dotfree (del r k)"
  by (cases r) (auto simp: dotfree_iff delete_conv' split: if_splits)

lemma dotfree_modify_at:
  "dotfree t \<Longrightarrow> (\<And>r. dotfree r \<Longrightarrow> dotfree (f r)) \<Longrightarrow> dotfree (modify_at t loc f)"
proof (induction t loc f rule: modify_at.induct)
  case (1 obj f)
  then show ?case by simp
next
  case (2 p kvs k ks f)
  show ?case
  proof (cases "map_of kvs k")
    case None
    with 2 show ?thesis by simp
  next
    case (Some child)
    with 2(2) have "CHR ''.'' \<notin> set k" "dotfree child" by (auto simp: dotfree_iff)
    with 2(1) [OF Some] 2(3) have "dotfree (modify_at child ks f)" by simp
    with 2(2) \<open>CHR ''.'' \<notin> set k\<close> have "dotfree (put (JObj p kvs) k (modify_at child ks f))"
      by (intro dotfree_put)
    with Some show ?thesis by simp
  qed
qed

lemma target_dotfree: "CHR ''.'' \<notin> set (target path)"
  unfolding target_def
  by (rule split_on_free [of _ _ path]) (simp add: split_on_not_Nil)

lemma set_mask_dotfree:
  assumes "checked_through v" and "dotfree (maskObj m)" and "set_mask v p m = Done m'"
  shows "dotfree (maskObj m')"
proof -
  from assms(3) have ck: "checkKeys v" by (auto simp: set_mask_def split: if_splits)
  with assms(1) have dv: "dotfree v" by (rule checkKeys_imp_dotfree)
  show ?thesis
  proof (cases "p = []")
    case True
    with assms(3) ck dv show ?thesis by (auto simp: set_mask_def)
  next
    case False
    with assms(3) ck obtain loc ref where
      "m' = m\<lparr>maskObj := modify_at (maskObj m) loc (\<lambda>r. put r (target p) v)\<rparr>"
      by (auto simp: set_mask_def split: result.splits if_splits)
    then show ?thesis
      using assms(2) dv by (simp add: dotfree_modify_at dotfree_put target_dotfree)
  qed
qed

lemma unset_dotfree:
  assumes "dotfree (maskObj m)" and "unset p m = Done m'"
  shows "dotfree (maskObj m')"
proof (cases "p = []")
  case True
  with assms(2) show ?thesis by (auto simp: unset_def dotfree.simps own_keys_def)
next
  case False
  with assms(2) obtain loc ref where
    "m' = m\<lparr>maskObj := modify_at (maskObj m) loc (\<lambda>r. del r (target p))\<rparr>"
    by (auto simp: unset_def split: result.splits if_splits)
  then show ?thesis
    using assms(1) by (simp add: dotfree_modify_at dotfree_del)
qed

lemma tempObj_loop_children:
  "tempObj_loop (JObj pr kvs) xs = Some obj \<Longrightarrow>
   \<exists>kvs'. obj = JObj pr kvs' \<and>
     (\<forall>k v. map_of kvs' k = Some v \<longrightarrow> v = JObj ObjectPrototype [] \<or> map_of kvs k = Some v)"
proof (induction xs arbitrary: kvs)
  case Nil
  then show ?case by auto
next
  case (Cons x xs)
  from Cons.prems obtain key where key: "to_string x = Some key"
    and loop: "tempObj_loop (JObj pr (AList.update key (JObj ObjectPrototype []) kvs)) xs = Some obj"
    by (auto split: option.splits)
  from Cons.IH [OF loop] obtain kvs' where kvs': "obj = JObj pr kvs'"
    "\<forall>k v. map_of kvs' k = Some v \<longrightarrow> v = JObj ObjectPrototype [] \<or>
       map_of (AList.update key (JObj ObjectPrototype []) kvs) k = Some v"
    by blast
  have "v = JObj ObjectPrototype [] \<or> map_of kvs k = Some v" if "map_of kvs' k = Some v" for k v
  proof -
    from kvs'(2) that have "v = JObj ObjectPrototype [] \<or>
       map_of (AList.update key (JObj ObjectPrototype []) kvs) k = Some v" by blast
    then show ?thesis by (cases "k = key") (auto simp: update_conv')
  qed
  with kvs'(1) show ?case by blast
qed

lemma tempObj_children:
  assumes "tempObj prop = Some obj"
  shows "\<exists>kvs. obj = JObj NullPrototype kvs \<and>
           (\<forall>k v. map_of kvs k = Some v \<longrightarrow> v = JObj ObjectPrototype [])"
proof (cases "prop")
  case (JArr xs)
  with assms tempObj_loop_children [of NullPrototype "[]" xs obj] show ?thesis by auto
next
  case (JStr s)
  with assms show ?thesis by (auto split: if_splits)
qed (use assms in \<open>auto\<close>)

lemma tempObj_checked_through:
  assumes "tempObj prop = Some obj"
  shows "checked_through obj"
proof -
  from tempObj_children [OF assms] obtain kvs where kvs: "obj = JObj NullPrototype kvs"
    "\<forall>k v. map_of kvs k = Some v \<longrightarrow> v = JObj ObjectPrototype []" by blast
  have "Object_keys v = []" if "map_of kvs k = Some v" for k v
  proof -
    from kvs(2) that have "v = JObj ObjectPrototype []" by blast
    then show ?thesis by (simp add: own_keys_def)
  qed
  then show ?thesis unfolding kvs(1) checked_through_iff by blast
qed

lemma push_dotfree:
  assumes "dotfree (maskObj m)" and "push prop p m = Done m'"
  shows "dotfree (maskObj m')"
proof -
  from assms(2) obtain obj where "tempObj prop = Some obj" "set_mask obj p m = Done m'"
    by (auto simp: push_def split: if_splits option.splits)
  with assms(1) show ?thesis
    using set_mask_dotfree tempObj_checked_through by blast
qed

lemma run_dotfree:
  "\<forall>v p. Set v p \<in> set calls \<longrightarrow> checked_through v \<Longrightarrow> dotfree (maskObj m) \<Longrightarrow>
   run calls m = Done m' \<Longrightarrow> dotfree (maskObj m')"
proof (induction calls arbitrary: m)
  case Nil
  then show ?case by simp
next
  case (Cons c calls)
  from Cons.prems(3) obtain m1 where m1: "call_mask c m = Done m1" "run calls m1 = Done m'"
    by (auto split: outcome.splits)
  have "dotfree (maskObj m1)"
  proof (cases c)
    case (Set v p)
    with Cons.prems(1) have "checked_through v" by auto
    with Set m1(1) Cons.prems(2) show ?thesis using set_mask_dotfree by auto
  next
    case (Unset p)
    with m1(1) Cons.prems(2) show ?thesis using unset_dotfree by auto
  next
    case (Push x p)
    with m1(1) Cons.prems(2) show ?thesis using push_dotfree by auto
  qed
  with Cons.IH [of m1] Cons.prems(1) m1(2) show ?case by auto
qed

lemma run_new_dotfree:
  assumes "\<forall>v p. Set v p \<in> set calls \<longrightarrow> checked_through v"
    and "run calls new_SLAPIMask = Done m"
  shows "dotfree (maskObj m)"
proof -
  have "dotfree (maskObj new_SLAPIMask)"
    by (simp add: new_SLAPIMask_def dotfree.simps own_keys_def)
  from assms(1) this assms(2) show ?thesis by (rule run_dotfree)
qed

lemma walk_Runtime:
  "walk loc ref keys = Runtime \<Longrightarrow> \<exists>key\<in>set keys. key \<in> set Object_prototype_members"
proof (induction keys arbitrary: loc ref)
  case Nil
  then show ?case by simp
next
  case (Cons k ks)
  obtain p kvs where r: "ref = JObj p kvs" by (cases ref)
  show ?case
  proof (cases "get ref k")
    case (Own v)
    with Cons.prems have "walk (loc @ [k]) v ks = Runtime" by simp
    from Cons.IH [OF this] show ?thesis by auto
  next
    case Inherited
    then have "k \<in> set Object_prototype_members"
      unfolding r by (auto split: option.splits if_splits)
    then show ?thesis by simp
  next
    case Missing
    with Cons.prems show ?thesis by simp
  qed
qed

lemma parent_ref_own_names:
  assumes "own_names path"
  shows "parent_ref m path \<noteq> Outside"
proof
  assume out: "parent_ref m path = Outside"
  then have sk: "shortenedKey path \<noteq> []"
    by (auto simp: parent_ref_def split: if_splits)
  with out have "walk [] (maskObj m) (split_on CHR ''.'' (shortenedKey path)) = Runtime"
    by (auto simp: parent_ref_def getRef_def split: if_splits walk_result.splits)
  from walk_Runtime [OF this] obtain key where
    key: "key \<in> set (split_on CHR ''.'' (shortenedKey path))" "key \<in> set Object_prototype_members"
    by blast
  from sk have "butlast (split_on CHR ''.'' path) \<noteq> []" by (auto simp: shortenedKey_def)
  from split_shortenedKey [OF this] key(1)
  have "key \<in> set (split_on CHR ''.'' path)" by (auto dest: in_set_butlastD)
  with assms key(2) show False by (auto simp: own_names_def list_all_iff)
qed

lemma target_own_names:
  assumes "own_names path"
  shows "\<not> hits_proto_setter ref (target path)"
proof
  assume h: "hits_proto_setter ref (target path)"
  then have "target path = ''__proto__''" by (cases ref) auto
  then have "target path \<in> set Object_prototype_members"
    by (simp add: Object_prototype_members_def)
  moreover have "target path \<in> set (split_on CHR ''.'' path)"
    unfolding target_def by (rule last_in_set) (rule split_on_not_Nil)
  ultimately show False using assms by (auto simp: own_names_def list_all_iff)
qed

lemma set_mask_own_names: "own_names path \<Longrightarrow> set_mask v path m \<noteq> Escapes"
  using parent_ref_own_names [of path m] target_own_names [of path]
  by (auto simp: set_mask_def split: result.splits)

lemma unset_own_names: "own_names path \<Longrightarrow> unset path m \<noteq> Escapes"
  using parent_ref_own_names [of path m]
  by (auto simp: unset_def split: result.splits)

lemma push_own_names: "own_names path \<Longrightarrow> push x path m \<noteq> Escapes"
  using set_mask_own_names [of path _ m]
  by (auto simp: push_def split: option.splits)

lemma call_mask_avoids: "avoids_prototype c \<Longrightarrow> call_mask c m \<noteq> Escapes"
  by (cases c) (simp_all add: set_mask_own_names unset_own_names push_own_names)

lemma run_avoids: "list_all avoids_prototype calls \<Longrightarrow> run calls m \<noteq> Escapes"
proof (induction calls arbitrary: m)
  case Nil
  then show ?case by simp
next
  case (Cons c calls)
  then have c: "call_mask c m \<noteq> Escapes" and rest: "\<And>m'. run calls m' \<noteq> Escapes"
    by (simp_all add: call_mask_avoids)
  show ?case
  proof (cases "call_mask c m")
    case (Done m')
    with rest [of m'] show ?thesis by simp
  next
    case (Throw e m')
    then show ?thesis by simp
  next
    case Escapes
    with c show ?thesis by simp
  qed
qed

text \<open>
  A path through \<^verbatim>\<open>__proto__\<close> leads to \<^verbatim>\<open>Object.prototype\<close> itself.  After \<^verbatim>\<open>unset()\<close>
  the root is an object literal, and \<^verbatim>\<open>set({}, '__proto__.constructor')\<close> then assigns the
  \<^verbatim>\<open>constructor\<close> of \<^verbatim>\<open>Object.prototype\<close>: from that call on no object literal has the
  constructor \<^verbatim>\<open>Object\<close>, and \<^verbatim>\<open>_checkKeys\<close> enters no nested object.  Such a sequence is
  \<open>Escapes\<close>, and nothing is stated about it.
\<close>

lemma run_through_prototype:
  "run [Unset [], Set (JObj ObjectPrototype []) ''__proto__.constructor'',
        Set (JObj ObjectPrototype [(''a'', JObj ObjectPrototype [(''b.c'', JObj ObjectPrototype [])])])
          []] new_SLAPIMask = Escapes \<and>
   \<not> own_names ''__proto__.constructor''"
  by code_simp

text \<open>
  Claim C3, as amended.  Starting from the new mask, take any sequence of calls of
  \<^verbatim>\<open>set\<close>, \<^verbatim>\<open>unset\<close> and \<^verbatim>\<open>push\<close> in which the values given to \<^verbatim>\<open>set\<close> are built below
  their top level from object literals with no own \<^verbatim>\<open>constructor\<close> property.  If every
  call returns and none of them resolves a segment or the target of its path through
  \<^verbatim>\<open>Object.prototype\<close> (an inherited member, or the \<^verbatim>\<open>__proto__\<close> setter), then no key of
  the mask, at any depth, contains a period.  No call of the sequence goes through
  \<^verbatim>\<open>Object.prototype\<close> when no path has a segment that is the name of one of its members
  (\<^verbatim>\<open>constructor\<close>, \<^verbatim>\<open>toString\<close>, \<^verbatim>\<open>__proto__\<close> and the others).  And on such values
  validation accepts exactly those without a key with a period at any depth.  Sequences
  with a call that does go through \<^verbatim>\<open>Object.prototype\<close> are left out.
\<close>

theorem dotfree_invariant:
  assumes "list_all plain_value calls"
  shows "(run calls new_SLAPIMask = Done m \<longrightarrow> dotfree (maskObj m)) \<and>
         (list_all avoids_prototype calls \<longrightarrow> run calls new_SLAPIMask \<noteq> Escapes) \<and>
         (\<forall>val. checked_through val \<longrightarrow> checkKeys val = dotfree val)"
proof (intro conjI impI)
  from assms have plain: "\<forall>v p. Set v p \<in> set calls \<longrightarrow> checked_through v"
    by (auto simp: list_all_iff)
  show "dotfree (maskObj m)" if "run calls new_SLAPIMask = Done m"
    using plain that by (rule run_new_dotfree)
  show "run calls new_SLAPIMask \<noteq> Escapes" if "list_all avoids_prototype calls"
    using that by (rule run_avoids)
  show "\<forall>val. checked_through val \<longrightarrow> checkKeys val = dotfree val"
    by (simp add: checkKeys_dotfree)
qed

theorem dotfree_invariant_witness:
  "list_all plain_value
     [Push (JStr ''a'') [], Push (JArr [JStr ''b'', JStr ''c'']) ''a'',
      Set (JObj ObjectPrototype [(''d'', JObj ObjectPrototype [(''e'', JObj ObjectPrototype [])])])
        ''a.b'',
      Unset ''a.c''] \<and>
   list_all avoids_prototype
     [Push (JStr ''a'') [], Push (JArr [JStr ''b'', JStr ''c'']) ''a'',
      Set (JObj ObjectPrototype [(''d'', JObj ObjectPrototype [(''e'', JObj ObjectPrototype [])])])
        ''a.b'',
      Unset ''a.c''] \<and>
   run
     [Push (JStr ''a'') [], Push (JArr [JStr ''b'', JStr ''c'']) ''a'',
      Set (JObj ObjectPrototype [(''d'', JObj ObjectPrototype [(''e'', JObj ObjectPrototype [])])])
        ''a.b'',
      Unset ''a.c''] new_SLAPIMask =
   Done \<lparr>maskObj = JObj NullPrototype [(''a'', JObj NullPrototype [(''b'',
      JObj ObjectPrototype [(''d'', JObj ObjectPrototype [(''e'', JObj ObjectPrototype [])])])])]\<rparr> \<and>
   dotfree (JObj NullPrototype [(''a'', JObj NullPrototype [(''b'',
      JObj ObjectPrototype [(''d'', JObj ObjectPrototype [(''e'', JObj ObjectPrototype [])])])])]) \<and>
   checked_through
     (JObj ObjectPrototype [(''d'', JObj ObjectPrototype [(''e'', JObj ObjectPrototype [])])]) \<and>
   checkKeys
     (JObj ObjectPrototype [(''d'', JObj ObjectPrototype [(''e'', JObj ObjectPrototype [])])]) \<and>
   dotfree
     (JObj ObjectPrototype [(''d'', JObj ObjectPrototype [(''e'', JObj ObjectPrototype [])])])"
proof -
  let ?v = "JObj ObjectPrototype [(''d'', JObj ObjectPrototype [(''e'', JObj ObjectPrototype [])])]"
  let ?calls = "[Push (JStr ''a'') [], Push (JArr [JStr ''b'', JStr ''c'']) ''a'',
      Set ?v ''a.b'', Unset ''a.c'']"
  let ?t = "JObj NullPrototype [(''a'', JObj NullPrototype [(''b'', ?v)])]"
  have 1: "list_all plain_value ?calls" by code_simp
  have 2: "run ?calls new_SLAPIMask = Done \<lparr>maskObj = ?t\<rparr>" by code_simp
  have 3: "list_all avoids_prototype ?calls" by code_simp
  have 4: "checked_through ?v" by code_simp
  have 5: "checkKeys ?v" by code_simp
  note inv = dotfree_invariant [OF 1, of "\<lparr>maskObj = ?t\<rparr>"]
  from inv 2 have 6: "dotfree ?t" by simp
  from inv 4 5 have 7: "dotfree ?v" by blast
  from 1 2 3 4 5 6 7 show ?thesis by blast
qed

text \<open>
  Claim C3 as stated fails: after \<^verbatim>\<open>push('a')\<close>, a \<^verbatim>\<open>set\<close> at \<^verbatim>\<open>a\<close> of an object whose
  nested object has no prototype returns, and the mask holds the key \<^verbatim>\<open>c.d\<close>.
\<close>

theorem dotted_key_below_null_prototype:
  "run [Push (JStr ''a'') [],
        Set (JObj NullPrototype [(''b'', JObj NullPrototype [(''c.d'', JObj ObjectPrototype [])])])
          ''a''] new_SLAPIMask =
   Done \<lparr>maskObj = JObj NullPrototype [(''a'',
      JObj NullPrototype [(''b'', JObj NullPrototype [(''c.d'', JObj ObjectPrototype [])])])]\<rparr> \<and>
   \<not> dotfree (JObj NullPrototype [(''a'',
      JObj NullPrototype [(''b'', JObj NullPrototype [(''c.d'', JObj ObjectPrototype [])])])])"
  by code_simp

section \<open>\<^verbatim>\<open>push\<close>\<close>

text \<open>
  Claim C5, as amended.  \<^verbatim>\<open>push\<close> throws the \<^verbatim>\<open>Error\<close> for an invalid argument exactly when
  the argument is falsy, or is neither a string nor an array, and then the mask is
  unchanged.  For a string that is not empty, and for an array of strings, it calls
  \<^verbatim>\<open>set\<close> at the path with an object whose own properties are empty object literals, one
  under each name given; and whenever a call of \<^verbatim>\<open>push\<close> returns, the object it built is
  the root (empty path) or the value at the place the path writes to, whatever was there
  before.
\<close>

theorem push_InvalidArgument:
  "((\<exists>m'. push prop path m = Throw InvalidArgument m') \<longleftrightarrow>
      \<not> truthy prop \<or> (\<not> is_string prop \<and> \<not> isArray prop)) \<and>
   (\<not> truthy prop \<or> (\<not> is_string prop \<and> \<not> isArray prop) \<longrightarrow>
      push prop path m = Throw InvalidArgument m) \<and>
   (s \<noteq> [] \<longrightarrow>
      (\<exists>obj. push (JStr s) path m = set_mask obj path m \<and>
         (\<forall>k. own_property obj k = (if k = s then Some (JObj ObjectPrototype []) else None)))) \<and>
   (\<exists>obj. push (JArr (map JStr names)) path m = set_mask obj path m \<and>
         (\<forall>k. own_property obj k =
               (if k \<in> set names then Some (JObj ObjectPrototype []) else None))) \<and>
   (\<forall>obj m'. tempObj prop = Some obj \<and> push prop path m = Done m' \<longrightarrow>
      (if path = [] then maskObj m' = obj
       else descend (maskObj m') (write_location path) = Some obj))"
proof (intro conjI impI allI)
  show "(\<exists>m'. push prop path m = Throw InvalidArgument m') \<longleftrightarrow>
      \<not> truthy prop \<or> (\<not> is_string prop \<and> \<not> isArray prop)"
    by (auto simp: push_def split: option.splits dest: set_mask_Throw)
  show "push prop path m = Throw InvalidArgument m"
    if "\<not> truthy prop \<or> (\<not> is_string prop \<and> \<not> isArray prop)"
    using that by (auto simp: push_def)
  show "\<exists>obj. push (JStr s) path m = set_mask obj path m \<and>
         (\<forall>k. own_property obj k = (if k = s then Some (JObj ObjectPrototype []) else None))"
    if "s \<noteq> []"
    using that by (auto simp: push_def)
  show "\<exists>obj. push (JArr (map JStr names)) path m = set_mask obj path m \<and>
         (\<forall>k. own_property obj k =
               (if k \<in> set names then Some (JObj ObjectPrototype []) else None))"
    by (auto simp: push_def tempObj_loop_strings map_of_fold_update)
  show "if path = [] then maskObj m' = obj
       else descend (maskObj m') (write_location path) = Some obj"
    if "tempObj prop = Some obj \<and> push prop path m = Done m'" for obj m'
  proof -
    from that have "set_mask obj path m = Done m'"
      by (auto simp: push_def split: if_splits)
    then show ?thesis by (rule set_mask_Done)
  qed
qed

theorem push_InvalidArgument_witness:
  "\<not> truthy (JStr []) \<and>
   push (JStr []) ''a'' new_SLAPIMask = Throw InvalidArgument new_SLAPIMask \<and>
   push (JNum 7) ''a'' new_SLAPIMask = Throw InvalidArgument new_SLAPIMask \<and>
   push (JArr [JStr ''a'', JStr ''b'']) [] \<lparr>maskObj = JObj ObjectPrototype [(''z'', JObj ObjectPrototype [])]\<rparr> =
     Done \<lparr>maskObj = JObj NullPrototype
       [(''a'', JObj ObjectPrototype []), (''b'', JObj ObjectPrototype [])]\<rparr>"
proof -
  have 1: "\<not> truthy (JStr [])" by simp
  have 2: "\<not> is_string (JNum 7) \<and> \<not> isArray (JNum 7)" by simp
  from push_InvalidArgument [of "JStr []" "''a''" new_SLAPIMask] 1
  have a: "push (JStr []) ''a'' new_SLAPIMask = Throw InvalidArgument new_SLAPIMask" by blast
  from push_InvalidArgument [of "JNum 7" "''a''" new_SLAPIMask] 2
  have b: "push (JNum 7) ''a'' new_SLAPIMask = Throw InvalidArgument new_SLAPIMask" by blast
  have c: "push (JArr [JStr ''a'', JStr ''b'']) [] \<lparr>maskObj = JObj ObjectPrototype [(''z'', JObj ObjectPrototype [])]\<rparr> =
     Done \<lparr>maskObj = JObj NullPrototype
       [(''a'', JObj ObjectPrototype []), (''b'', JObj ObjectPrototype [])]\<rparr>" by code_simp
  from 1 a b c show ?thesis by blast
qed

text \<open>
  Claim C5 as stated fails for an array whose elements are not strings, and for the empty
  array: \<^verbatim>\<open>push([1, null])\<close> returns, with the keys \<^verbatim>\<open>1\<close> and \<^verbatim>\<open>null\<close>, and \<^verbatim>\<open>push([])\<close>
  replaces the root by an object without keys.
\<close>

theorem push_accepts_any_array:
  "\<not> is_string (JArr [JNum 1, JNull]) \<and> \<not> list_all is_string [JNum 1, JNull] \<and>
   push (JArr [JNum 1, JNull]) [] new_SLAPIMask =
     Done \<lparr>maskObj = JObj NullPrototype
       [(''1'', JObj ObjectPrototype []), (''null'', JObj ObjectPrototype [])]\<rparr> \<and>
   push (JArr []) [] \<lparr>maskObj = JObj ObjectPrototype [(''z'', JObj ObjectPrototype [])]\<rparr> =
     Done \<lparr>maskObj = JObj NullPrototype []\<rparr>"
  by code_simp

section \<open>Paths of one segment\<close>

text \<open>
  Claim C10, as amended.  For every mask and every path that is not empty and contains no
  period: neither \<^verbatim>\<open>set\<close> nor \<^verbatim>\<open>unset\<close> throws the \<^verbatim>\<open>ReferenceError\<close>; \<^verbatim>\<open>set\<close> with a
  value that passes validation, on a root where the key does not reach the \<^verbatim>\<open>__proto__\<close>
  setter, returns with the value as the own property of the root under that key, the other
  properties unchanged; and \<^verbatim>\<open>unset\<close> returns, with that key absent and the other
  properties unchanged, whether the key existed or not.
\<close>

theorem single_segment_set_unset:
  assumes "CHR ''.'' \<notin> set k" and "k \<noteq> []"
  shows "(\<forall>key path shown m'.
            set_mask v k m \<noteq> Throw (PathNotFound key path shown) m' \<and>
            unset k m \<noteq> Throw (PathNotFound key path shown) m') \<and>
         (checkKeys v \<and> \<not> hits_proto_setter (maskObj m) k \<longrightarrow>
            set_mask v k m = Done (m\<lparr>maskObj := put (maskObj m) k v\<rparr>)) \<and>
         own_property (put (maskObj m) k v) k = Some v \<and>
         (\<forall>k'. k' \<noteq> k \<longrightarrow>
            own_property (put (maskObj m) k v) k' = own_property (maskObj m) k') \<and>
         unset k m = Done (m\<lparr>maskObj := del (maskObj m) k\<rparr>) \<and>
         own_property (del (maskObj m) k) k = None \<and>
         (\<forall>k'. k' \<noteq> k \<longrightarrow>
            own_property (del (maskObj m) k) k' = own_property (maskObj m) k')"
proof -
  have sp: "split_on CHR ''.'' k = [k]" using assms(1) by (rule split_on_free_word)
  then have pr: "parent_ref m k = Ok ([], maskObj m)" and tg: "target k = k"
    by (simp_all add: parent_ref_def shortenedKey_def target_def)
  obtain p kvs where r: "maskObj m = JObj p kvs" by (cases "maskObj m")
  show ?thesis
    using assms(2) pr tg
    by (auto simp: set_mask_def unset_def r update_conv' delete_conv')
qed

theorem single_segment_set_unset_witness:
  "CHR ''.'' \<notin> set ''a'' \<and> ''a'' \<noteq> [] \<and>
   checkKeys (JObj ObjectPrototype [(''b'', JObj ObjectPrototype [])]) \<and>
   \<not> hits_proto_setter (maskObj new_SLAPIMask) ''a'' \<and>
   set_mask (JObj ObjectPrototype [(''b'', JObj ObjectPrototype [])]) ''a'' new_SLAPIMask =
     Done \<lparr>maskObj = JObj NullPrototype
       [(''a'', JObj ObjectPrototype [(''b'', JObj ObjectPrototype [])])]\<rparr> \<and>
   unset ''a'' new_SLAPIMask = Done new_SLAPIMask"
proof -
  let ?v = "JObj ObjectPrototype [(''b'', JObj ObjectPrototype [])]"
  have 1: "CHR ''.'' \<notin> set ''a''" by simp
  have 2: "''a'' \<noteq> []" by simp
  have 3: "checkKeys ?v" by code_simp
  have 4: "\<not> hits_proto_setter (maskObj new_SLAPIMask) ''a''" by code_simp
  from single_segment_set_unset [OF 1 2, of ?v new_SLAPIMask] 3 4
  have "set_mask ?v ''a'' new_SLAPIMask = Done (new_SLAPIMask\<lparr>maskObj := put (maskObj new_SLAPIMask) ''a'' ?v\<rparr>)"
    and "unset ''a'' new_SLAPIMask = Done (new_SLAPIMask\<lparr>maskObj := del (maskObj new_SLAPIMask) ''a''\<rparr>)"
    by blast+
  then have "set_mask ?v ''a'' new_SLAPIMask = Done \<lparr>maskObj = JObj NullPrototype [(''a'', ?v)]\<rparr>"
    and "unset ''a'' new_SLAPIMask = Done new_SLAPIMask"
    by (simp_all add: new_SLAPIMask_def)
  with 1 2 3 4 show ?thesis by blast
qed

text \<open>
  Claim C10 as stated fails for the empty path, which contains no period: \<^verbatim>\<open>set(v, '')\<close>
  replaces the root by \<^verbatim>\<open>v\<close>; no key \<^verbatim>\<open>''\<close> is created and the keys of the old root are
  gone.
\<close>

theorem set_mask_empty_path_replaces_root:
  "CHR ''.'' \<notin> set [] \<and>
   set_mask (JObj ObjectPrototype [(''a'', JObj ObjectPrototype [])]) []
     \<lparr>maskObj = JObj ObjectPrototype [(''x'', JObj ObjectPrototype [])]\<rparr> =
   Done \<lparr>maskObj = JObj ObjectPrototype [(''a'', JObj ObjectPrototype [])]\<rparr> \<and>
   own_property (JObj ObjectPrototype [(''a'', JObj ObjectPrototype [])]) [] = None \<and>
   own_property (JObj ObjectPrototype [(''a'', JObj ObjectPrototype [])]) ''x'' = None"
  by code_simp

section \<open>The query string\<close>

lemma form_urlencode_append: "form_urlencode (a @ b) = form_urlencode a @ form_urlencode b"
  by (simp add: form_urlencode_def)

lemma unreserved_digits: "list_all (\<lambda>d. unreserved (digit_char d)) [0, 1, 2, 3, 4, 5, 6, 7, 8, 9]"
  by code_simp

lemma unreserved_digit_char:
  assumes "d < 10"
  shows "unreserved (digit_char d)"
proof -
  from assms have "d \<in> set [0, 1, 2, 3, 4, 5, 6, 7, 8, 9]" by auto
  with unreserved_digits show ?thesis unfolding list_all_iff by blast
qed

lemma form_urlencode_show_nat: "form_urlencode (show_nat n) = show_nat n"
proof (induction n rule: show_nat.induct)
  case (1 n)
  show ?case
  proof (cases "n < 10")
    case True
    then show ?thesis
      by (subst (1 2) show_nat.simps)
         (simp add: form_urlencode_def encode_char_def unreserved_digit_char)
  next
    case False
    then have "show_nat n = show_nat (n div 10) @ [digit_char (n mod 10)]"
      by (subst show_nat.simps) simp
    moreover have "form_urlencode [digit_char (n mod 10)] = [digit_char (n mod 10)]"
      by (simp add: form_urlencode_def encode_char_def unreserved_digit_char)
    ultimately show ?thesis using 1 False by (simp add: form_urlencode_append)
  qed
qed

lemma form_urlencode_show_int: "form_urlencode (show_int i) = show_int i"
proof -
  have "form_urlencode ''-'' = ''-''" by code_simp
  then show ?thesis
    using form_urlencode_append [of "''-''"]
    by (simp add: show_int_def form_urlencode_show_nat)
qed

lemma form_urlencode_names:
  "form_urlencode ''objectMask'' = ''objectMask''"
  "form_urlencode ''objectFilter'' = ''objectFilter''"
  "form_urlencode ''resultLimit'' = ''resultLimit''"
  "form_urlencode '','' = ''%2C''"
  by code_simp+

lemma resultLimit_encoded:
  "form_urlencode (show_int a @ CHR '','' # show_int b) = show_int a @ ''%2C'' @ show_int b"
proof -
  have "form_urlencode (show_int a @ '','' @ show_int b) = show_int a @ ''%2C'' @ show_int b"
    by (simp only: form_urlencode_append form_urlencode_show_int form_urlencode_names)
  then show ?thesis by simp
qed

lemma toString_empty: "Object_keys (maskObj m) = [] \<Longrightarrow> toString m = ''mask[]''"
  by (cases "maskObj m") (simp add: toString_def objToStr_def recurse.simps)

text \<open>
  Claim C6.  For every instance whose service and function are set to strings \<open>S\<close> and
  \<open>F\<close> (not empty, or \<^verbatim>\<open>urlQuery\<close> throws): if the mask serializes to \<^verbatim>\<open>mask[]\<close>, the
  filter to \<^verbatim>\<open>{}\<close>, the limit is 25 and the offset 0, \<^verbatim>\<open>urlQuery\<close> is the endpoint, \<open>S\<close>,
  \<^verbatim>\<open>/\<close>, \<open>F\<close> and \<^verbatim>\<open>?resultLimit=0%2C25\<close>; in general the query string has
  \<^verbatim>\<open>objectMask\<close> exactly when the mask does not serialize to \<^verbatim>\<open>mask[]\<close> (and then the mask
  has a key), \<^verbatim>\<open>objectFilter\<close> exactly when the filter does not serialize to \<^verbatim>\<open>{}\<close>, and
  always \<^verbatim>\<open>resultLimit\<close> with the offset, the encoded comma and the limit.
\<close>

theorem urlQuery_parameters:
  assumes "service (config r) = JStr S" and "S \<noteq> []"
    and "func (config r) = JStr F" and "F \<noteq> []"
  shows "(toString (mask r) = ''mask[]'' \<and>
          JSON_stringify pf (filter_opt (options r)) = Some ''{}'' \<and>
          limit (options r) = 25 \<and> offset (options r) = 0 \<longrightarrow>
            urlQuery pf r = Inr (endpoint (config r) @ S @ ''/'' @ F @ ''?resultLimit=0%2C25'')) \<and>
         urlQuery pf r =
           Inr (endpoint (config r) @ S @ ''/'' @ F @ ''?'' @
                join ''&''
                  ((if toString (mask r) = ''mask[]'' then []
                    else [''objectMask='' @ form_urlencode (toString (mask r))]) @
                   (if JSON_stringify pf (filter_opt (options r)) = Some ''{}'' then []
                    else [''objectFilter='' @
                          form_urlencode (case JSON_stringify pf (filter_opt (options r)) of
                                            None \<Rightarrow> ''undefined'' | Some f \<Rightarrow> f)]) @
                   [''resultLimit='' @ show_int (offset (options r)) @ ''%2C'' @
                    show_int (limit (options r))])) \<and>
         (toString (mask r) \<noteq> ''mask[]'' \<longrightarrow> Object_keys (maskObj (mask r)) \<noteq> [])"
proof (intro conjI impI)
  show general: "urlQuery pf r =
           Inr (endpoint (config r) @ S @ ''/'' @ F @ ''?'' @
                join ''&''
                  ((if toString (mask r) = ''mask[]'' then []
                    else [''objectMask='' @ form_urlencode (toString (mask r))]) @
                   (if JSON_stringify pf (filter_opt (options r)) = Some ''{}'' then []
                    else [''objectFilter='' @
                          form_urlencode (case JSON_stringify pf (filter_opt (options r)) of
                                            None \<Rightarrow> ''undefined'' | Some f \<Rightarrow> f)]) @
                   [''resultLimit='' @ show_int (offset (options r)) @ ''%2C'' @
                    show_int (limit (options r))]))"
    using assms
    by (simp add: urlQuery_def Let_def params_set_def params_toString_def
                  form_urlencode_names resultLimit_encoded)
  show "urlQuery pf r = Inr (endpoint (config r) @ S @ ''/'' @ F @ ''?resultLimit=0%2C25'')"
    if "toString (mask r) = ''mask[]'' \<and>
          JSON_stringify pf (filter_opt (options r)) = Some ''{}'' \<and>
          limit (options r) = 25 \<and> offset (options r) = 0"
  proof -
    have "show_int 0 = ''0''" "show_int 25 = ''25''" by code_simp+
    with that show ?thesis unfolding general by simp
  qed
  show "Object_keys (maskObj (mask r)) \<noteq> []" if "toString (mask r) \<noteq> ''mask[]''"
    using that toString_empty by blast
qed

theorem urlQuery_parameters_witness:
  "service (config (test_request JUndefined JUndefined)) = JStr ''S'' \<and>
   func (config (test_request JUndefined JUndefined)) = JStr ''F'' \<and>
   toString (mask (test_request JUndefined JUndefined)) = ''mask[]'' \<and>
   urlQuery (test_platform (\<lambda>q. JNull)) (test_request JUndefined JUndefined) =
     Inr ''https://api.softlayer.com/rest/v3.1/S/F?resultLimit=0%2C25''"
proof -
  let ?r = "test_request JUndefined JUndefined"
  let ?pf = "test_platform (\<lambda>q. JNull)"
  have 1: "service (config ?r) = JStr ''S''" by code_simp
  have 2: "''S'' \<noteq> []" by simp
  have 3: "func (config ?r) = JStr ''F''" by code_simp
  have 4: "''F'' \<noteq> []" by simp
  have 5: "toString (mask ?r) = ''mask[]''" by code_simp
  have 6: "JSON_stringify ?pf (filter_opt (options ?r)) = Some ''{}''" by code_simp
  have 7: "limit (options ?r) = 25" "offset (options ?r) = 0" by code_simp+
  have 8: "endpoint (config ?r) = ''https://api.softlayer.com/rest/v3.1/''" by code_simp
  from urlQuery_parameters [OF 1 2 3 4, of ?pf] 5 6 7
  have "urlQuery ?pf ?r = Inr (endpoint (config ?r) @ ''S'' @ ''/'' @ ''F'' @ ''?resultLimit=0%2C25'')"
    by blast
  with 8 have "urlQuery ?pf ?r = Inr ''https://api.softlayer.com/rest/v3.1/S/F?resultLimit=0%2C25''"
    by simp
  with 1 3 5 show ?thesis by blast
qed

text \<open>
  The instance built by \<^verbatim>\<open>new SLAPIRequest()\<close>, every property left out: the defaults of
  the constructor are the service and the function of its URL.
\<close>

lemma default_request_urlQuery:
  "urlQuery (test_platform (\<lambda>q. JNull))
     (new_SLAPIRequest JUndefined JUndefined None JUndefined JUndefined JUndefined) =
   Inr ''https://api.softlayer.com/rest/v3.1/SoftLayer_Hardware_Server/getObject?resultLimit=0%2C25'' \<and>
   service (config (new_SLAPIRequest JNull JUndefined None JUndefined JUndefined JUndefined)) = JNull"
  by code_simp

section \<open>\<^verbatim>\<open>exec\<close> without credentials\<close>

text \<open>
  Claim C7.  For every instance whose username or password is not set (is falsy),
  \<^verbatim>\<open>exec\<close> returns the \<^verbatim>\<open>Error\<close> object for missing authentication as its value, without
  throwing; no event is added, so no HTTP call is made, and the instance, with its stored
  response and timestamps, is unchanged.
\<close>

theorem exec_without_credentials:
  assumes "\<not> truthy (username (config r)) \<or> \<not> truthy (password (config r))"
  shows "exec pf r w = (Returns (ErrorObject AuthenticationUnavailable), r, w)"
proof -
  from assms have "\<not> (truthy (username (config r)) \<and> truthy (password (config r)))"
    by blast
  then show ?thesis
    unfolding exec_def by simp
qed

theorem exec_without_credentials_witness:
  "\<not> truthy (password (config (test_request (JStr ''u'') JUndefined))) \<and>
   exec (test_platform (\<lambda>q. JNull)) (test_request (JStr ''u'') JUndefined) [] =
     (Returns (ErrorObject AuthenticationUnavailable), test_request (JStr ''u'') JUndefined, [])"
proof -
  have 1: "\<not> truthy (password (config (test_request (JStr ''u'') JUndefined)))" by code_simp
  then have "\<not> truthy (username (config (test_request (JStr ''u'') JUndefined))) \<or>
             \<not> truthy (password (config (test_request (JStr ''u'') JUndefined)))" by blast
  from exec_without_credentials [OF this] 1 show ?thesis by blast
qed

section \<open>Pagination\<close>

lemma sleeps_append: "sleeps (a @ b) = sleeps a @ sleeps b"
  by (induction a rule: sleeps.induct) auto

lemma fetches_append: "fetches (a @ b) = fetches a @ fetches b"
  by (induction a rule: fetches.induct) auto

lemma pages_loop_spec:
  "pages_loop pf i pages acc r w =
     (case spec_pages pf pages [i..pages] r w of
        (Throws e, r', w') \<Rightarrow> (Throws e, r', w')
      | (Returns vs, r', w') \<Rightarrow> (Returns (acc @ vs), r', w'))"
proof (induction pf i pages acc r w rule: pages_loop.induct)
  case (1 pf i pages acc r w)
  show ?case
  proof (cases "i \<le> pages")
    case False
    then show ?thesis by (subst pages_loop.simps) simp
  next
    case True
    then have up: "[i..pages] = i # [i + 1..pages]" by (simp add: upto_rec1)
    obtain c r' w' where ex: "exec pf (page i r) w = (c, r', w')" by (cases "exec pf (page i r) w")
    show ?thesis
    proof (cases c)
      case (Throws e)
      with True ex up show ?thesis by (subst pages_loop.simps) simp
    next
      case (Returns v)
      from 1 [OF True ex [symmetric] Returns refl] True ex up Returns
      show ?thesis
        by (subst pages_loop.simps) (auto split: prod.splits completion.splits)
    qed
  qed
qed

lemma urlQuery_same:
  "same_query r r' \<Longrightarrow> offset (options r') = offset (options r) \<Longrightarrow>
   urlQuery pf r' = urlQuery pf r"
  by (auto simp: same_query_def urlQuery_def Let_def split: option.splits)

lemma exec_Returns_facts:
  assumes "exec pf r w = (Returns v, r', w')"
  shows "same_query r r' \<and> offset (options r') = offset (options r) \<and>
         (if authed r
          then (\<exists>q. w' = w @ [Fetched q] \<and> (\<not> posts r \<longrightarrow> Inr (req_url q) = urlQuery pf r))
          else w' = w \<and> r' = r)"
proof (cases "authed r")
  case False
  with assms show ?thesis by (auto simp: exec_def authed_def same_query_def)
next
  case True
  let ?r1 = "r\<lparr>results := (results r)\<lparr>start := Some (Date_now pf w)\<rparr>\<rparr>"
  have uq: "urlQuery pf ?r1 = urlQuery pf r"
    by (rule urlQuery_same) (simp_all add: same_query_def)
  from assms True show ?thesis
    unfolding exec_def authed_def posts_def same_query_def Let_def uq
    by (auto split: sum.splits option.splits if_splits prod.splits)
qed

lemma same_query_page: "same_query r (page i r)"
  by (simp add: same_query_def page_def)

lemma same_query_trans: "same_query a b \<Longrightarrow> same_query b c \<Longrightarrow> same_query a c"
  by (simp add: same_query_def)

lemma authed_same: "same_query r r' \<Longrightarrow> authed r' = authed r"
  by (simp add: same_query_def authed_def)

lemma posts_same: "same_query r r' \<Longrightarrow> posts r' = posts r"
  by (simp add: same_query_def posts_def)

lemma urlQuery_page_same:
  "same_query r r' \<Longrightarrow> urlQuery pf (page i r') = urlQuery pf (page i r)"
  by (rule urlQuery_same) (auto simp: same_query_def page_def)

lemma spec_pages_facts:
  "spec_pages pf pages is r w = (Returns vs, r', w') \<Longrightarrow>
   \<exists>new. w' = w @ new \<and> length vs = length is \<and> same_query r r' \<and>
     sleeps new = replicate (length is) 300 \<and>
     length (fetches new) = (if authed r then length is else 0) \<and>
     (authed r \<and> \<not> posts r \<longrightarrow>
        map (\<lambda>q. Inr (req_url q)) (fetches new) = map (\<lambda>i. urlQuery pf (page i r)) is)"
proof (induction "is" arbitrary: r w vs)
  case Nil
  then show ?case by (auto simp: same_query_def)
next
  case (Cons i rest)
  from Cons.prems obtain v r1 w1 where ex: "exec pf (page i r) w = (Returns v, r1, w1)"
    by (auto split: prod.splits completion.splits)
  let ?log = "[Logged (''Retrieved page '' @ show_int i @ '' of '' @ show_int pages @
                       '' in '' @ duration r1), Slept 300]"
  from Cons.prems ex obtain vs' where rest: "spec_pages pf pages rest r1 (w1 @ ?log) = (Returns vs', r', w')"
    and vs: "vs = v # vs'"
    by (auto split: prod.splits completion.splits)
  from Cons.IH [OF rest] obtain new where new: "w' = (w1 @ ?log) @ new"
    "length vs' = length rest" "same_query r1 r'"
    "sleeps new = replicate (length rest) 300"
    "length (fetches new) = (if authed r1 then length rest else 0)"
    "authed r1 \<and> \<not> posts r1 \<longrightarrow>
        map (\<lambda>q. Inr (req_url q)) (fetches new) = map (\<lambda>i. urlQuery pf (page i r1)) rest"
    by blast
  note f = exec_Returns_facts [OF ex]
  have sq1: "same_query r r1" using f same_query_page [of r i] same_query_trans by blast
  have au: "authed (page i r) = authed r" "authed r1 = authed r"
    "posts (page i r) = posts r" "posts r1 = posts r"
    using sq1 same_query_page [of r i] by (simp_all add: authed_same posts_same)
  have sq: "same_query r r'" using sq1 new(3) same_query_trans by blast
  have pg: "urlQuery pf (page j r1) = urlQuery pf (page j r)" for j
    using sq1 by (rule urlQuery_page_same)
  show ?case
  proof (cases "authed r")
    case False
    with f au have "w1 = w" by simp
    with new vs sq False au have "w' = w @ (?log @ new) \<and> length vs = length (i # rest) \<and>
      same_query r r' \<and> sleeps (?log @ new) = replicate (length (i # rest)) 300 \<and>
      length (fetches (?log @ new)) = (if authed r then length (i # rest) else 0) \<and>
      (authed r \<and> \<not> posts r \<longrightarrow>
        map (\<lambda>q. Inr (req_url q)) (fetches (?log @ new)) =
        map (\<lambda>i. urlQuery pf (page i r)) (i # rest))"
      by (simp add: sleeps_append fetches_append)
    then show ?thesis by blast
  next
    case True
    with f au obtain q where q: "w1 = w @ [Fetched q]"
      "\<not> posts r \<longrightarrow> Inr (req_url q) = urlQuery pf (page i r)" by auto
    from new vs sq True au q pg have "w' = w @ (Fetched q # ?log @ new) \<and>
      length vs = length (i # rest) \<and>
      same_query r r' \<and> sleeps (Fetched q # ?log @ new) = replicate (length (i # rest)) 300 \<and>
      length (fetches (Fetched q # ?log @ new)) = (if authed r then length (i # rest) else 0) \<and>
      (authed r \<and> \<not> posts r \<longrightarrow>
        map (\<lambda>q. Inr (req_url q)) (fetches (Fetched q # ?log @ new)) =
        map (\<lambda>i. urlQuery pf (page i r)) (i # rest))"
      by (simp add: sleeps_append fetches_append)
    then show ?thesis by blast
  qed
qed

text \<open>
  Claim C8.  \<^verbatim>\<open>getNumOfPages(pages)\<close> is the pagination of the specification over the
  page indices 1 to \<open>pages\<close> in order, and when no execution throws it returns, and stores
  in \<^verbatim>\<open>resArr\<close>, the results of the pages in that order with each array spread one level.
  Then there is one result for each page, one suspension of 300 milliseconds after each
  execution, one HTTP call for each page if the instance has credentials and none
  otherwise, and for a method other than \<^verbatim>\<open>post\<close> the URLs fetched are, in order, those of
  \<^verbatim>\<open>urlQuery\<close> with the current page set to 1, 2, ... \<open>pages\<close>.
\<close>

theorem getNumOfPages_pages:
  "getNumOfPages pf pages r w =
     (case spec_pages pf pages [1..pages] r w of
        (Throws e, r', w') \<Rightarrow> (Throws e, r', w')
      | (Returns vs, r', w') \<Rightarrow>
          (Returns (concat (map spread vs)),
           r'\<lparr>resArr := Some (concat (map spread vs))\<rparr>, w')) \<and>
   (\<forall>vs r' w'. spec_pages pf pages [1..pages] r w = (Returns vs, r', w') \<longrightarrow>
      length vs = nat pages \<and> take (length w) w' = w \<and>
      sleeps (drop (length w) w') = replicate (nat pages) 300 \<and>
      length (fetches (drop (length w) w')) = (if authed r then nat pages else 0) \<and>
      (authed r \<and> \<not> posts r \<longrightarrow>
         map (\<lambda>q. Inr (req_url q)) (fetches (drop (length w) w')) =
         map (\<lambda>i. urlQuery pf (page i r)) [1..pages]))"
proof (intro conjI allI impI)
  show "getNumOfPages pf pages r w =
     (case spec_pages pf pages [1..pages] r w of
        (Throws e, r', w') \<Rightarrow> (Throws e, r', w')
      | (Returns vs, r', w') \<Rightarrow>
          (Returns (concat (map spread vs)),
           r'\<lparr>resArr := Some (concat (map spread vs))\<rparr>, w'))"
    by (simp add: getNumOfPages_def pages_loop_spec split: prod.splits completion.splits)
next
  fix vs r' w'
  assume "spec_pages pf pages [1..pages] r w = (Returns vs, r', w')"
  from spec_pages_facts [OF this] obtain new where new: "w' = w @ new"
    "length vs = length [1..pages]"
    "sleeps new = replicate (length [1..pages]) 300"
    "length (fetches new) = (if authed r then length [1..pages] else 0)"
    "authed r \<and> \<not> posts r \<longrightarrow>
        map (\<lambda>q. Inr (req_url q)) (fetches new) = map (\<lambda>i. urlQuery pf (page i r)) [1..pages]"
    by blast
  have len: "length [1..pages] = nat pages" by simp
  show "length vs = nat pages" using new(2) len by simp
  show "take (length w) w' = w" using new(1) by simp
  show "sleeps (drop (length w) w') = replicate (nat pages) 300" using new(1,3) len by simp
  show "length (fetches (drop (length w) w')) = (if authed r then nat pages else 0)"
    using new(1,4) len by simp
  show "map (\<lambda>q. Inr (req_url q)) (fetches (drop (length w) w')) =
         map (\<lambda>i. urlQuery pf (page i r)) [1..pages]" if "authed r \<and> \<not> posts r"
    using new(1,5) that by simp
qed

theorem getNumOfPages_pages_witness:
  "fst (getNumOfPages (test_platform (\<lambda>q. JArr [JStr (req_url q)])) 2
          (test_request (JStr ''u'') (JStr ''p'')) []) =
     Returns [Json (JStr ''https://api.softlayer.com/rest/v3.1/S/F?resultLimit=0%2C25''),
              Json (JStr ''https://api.softlayer.com/rest/v3.1/S/F?resultLimit=25%2C25'')] \<and>
   sleeps (snd (snd (getNumOfPages (test_platform (\<lambda>q. JArr [JStr (req_url q)])) 2
          (test_request (JStr ''u'') (JStr ''p'')) []))) = [300, 300] \<and>
   length (fetches (snd (snd (getNumOfPages (test_platform (\<lambda>q. JArr [JStr (req_url q)])) 2
          (test_request (JStr ''u'') (JStr ''p'')) [])))) = 2"
proof -
  let ?pf = "test_platform (\<lambda>q. JArr [JStr (req_url q)])"
  let ?r = "test_request (JStr ''u'') (JStr ''p'')"
  let ?u1 = "''https://api.softlayer.com/rest/v3.1/S/F?resultLimit=0%2C25''"
  let ?u2 = "''https://api.softlayer.com/rest/v3.1/S/F?resultLimit=25%2C25''"
  have "fst (spec_pages ?pf 2 [1..2] ?r []) = Returns [Json (JArr [JStr ?u1]), Json (JArr [JStr ?u2])]"
    by code_simp
  then obtain r' w' where
    sp: "spec_pages ?pf 2 [1..2] ?r [] = (Returns [Json (JArr [JStr ?u1]), Json (JArr [JStr ?u2])], r', w')"
    by (cases "spec_pages ?pf 2 [1..2] ?r []") auto
  have au: "authed ?r" by code_simp
  from getNumOfPages_pages [of ?pf 2 ?r "[]"] sp au
  have "getNumOfPages ?pf 2 ?r [] =
          (Returns (concat (map spread [Json (JArr [JStr ?u1]), Json (JArr [JStr ?u2])])),
           r'\<lparr>resArr := Some (concat (map spread [Json (JArr [JStr ?u1]), Json (JArr [JStr ?u2])]))\<rparr>, w')"
    and "sleeps (drop (length ([]::event list)) w') = replicate (nat 2) 300"
    and "length (fetches (drop (length ([]::event list)) w')) = nat 2"
    by simp_all
  then show ?thesis by (simp add: numeral_2_eq_2)
qed

section \<open>\<^verbatim>\<open>employeeLogin\<close>\<close>

text \<open>
  Claim C9, as amended.  \<^verbatim>\<open>employeeLogin\<close> throws the \<^verbatim>\<open>Error\<close> for missing credentials,
  with the instance and the events unchanged, if one of its three arguments is falsy.
  With three truthy arguments, when the exchange resolves to a value whose \<^verbatim>\<open>error\<close>
  field is truthy, it throws an \<^verbatim>\<open>Error\<close> with that field as its message and the
  instance, its username and password included, is unchanged.
\<close>

theorem employeeLogin_errors:
  "(\<not> truthy u \<or> \<not> truthy p \<or> \<not> truthy token \<longrightarrow>
      employeeLogin pf u p token r w = (Throws MissingCredentials, r, w)) \<and>
   (truthy u \<and> truthy p \<and> truthy token \<and> to_string token = Some remoteToken \<and>
    exec pf (login_call u p remoteToken) w = (Returns v, apiCall', w') \<and>
    read_field v ''error'' = Some err \<and> truthy err \<and> to_string err = Some msg \<longrightarrow>
      employeeLogin pf u p token r w = (Throws (RemoteError msg), r, w'))"
proof (intro conjI impI)
  assume "\<not> truthy u \<or> \<not> truthy p \<or> \<not> truthy token"
  then show "employeeLogin pf u p token r w = (Throws MissingCredentials, r, w)"
    unfolding employeeLogin_def by simp
next
  assume a: "truthy u \<and> truthy p \<and> truthy token \<and> to_string token = Some remoteToken \<and>
    exec pf (login_call u p remoteToken) w = (Returns v, apiCall', w') \<and>
    read_field v ''error'' = Some err \<and> truthy err \<and> to_string err = Some msg"
  then have "\<not> (\<not> truthy u \<or> \<not> truthy p \<or> \<not> truthy token)" by blast
  with a show "employeeLogin pf u p token r w = (Throws (RemoteError msg), r, w')"
    unfolding employeeLogin_def by (simp add: Let_def)
qed

theorem employeeLogin_errors_witness:
  "employeeLogin (test_platform (\<lambda>q. JNull)) (JStr ''me'') JUndefined (JStr ''123456'')
      (test_request (JStr ''u'') (JStr ''p'')) [] =
     (Throws (Error ''Missing login credentials''), test_request (JStr ''u'') (JStr ''p''), []) \<and>
   fst (employeeLogin (test_platform (\<lambda>q. JData [(''error'', JStr ''Invalid token'')]))
      (JStr ''me'') (JStr ''pw'') (JStr ''123456'') (test_request (JStr ''u'') (JStr ''p'')) []) =
     Throws (Error ''Invalid token'') \<and>
   fst (snd (employeeLogin (test_platform (\<lambda>q. JData [(''error'', JStr ''Invalid token'')]))
      (JStr ''me'') (JStr ''pw'') (JStr ''123456'') (test_request (JStr ''u'') (JStr ''p'')) [])) =
     test_request (JStr ''u'') (JStr ''p'')"
proof -
  let ?pf = "test_platform (\<lambda>q. JData [(''error'', JStr ''Invalid token'')])"
  let ?r = "test_request (JStr ''u'') (JStr ''p'')"
  let ?v = "Json (JData [(''error'', JStr ''Invalid token'')])"
  have a: "\<not> truthy (JStr ''me'') \<or> \<not> truthy JUndefined \<or> \<not> truthy (JStr ''123456'')" by simp
  from employeeLogin_errors [of "JStr ''me''" JUndefined "JStr ''123456''"
      "test_platform (\<lambda>q. JNull)" ?r "[]"] a
  have 1: "employeeLogin (test_platform (\<lambda>q. JNull)) (JStr ''me'') JUndefined (JStr ''123456'') ?r [] =
     (Throws (Error ''Missing login credentials''), ?r, [])" by blast
  have "fst (exec ?pf (login_call (JStr ''me'') (JStr ''pw'') ''123456'') []) = Returns ?v"
    by code_simp
  then obtain apiCall' w' where
    ex: "exec ?pf (login_call (JStr ''me'') (JStr ''pw'') ''123456'') [] = (Returns ?v, apiCall', w')"
    by (cases "exec ?pf (login_call (JStr ''me'') (JStr ''pw'') ''123456'') []") auto
  have b: "truthy (JStr ''me'') \<and> truthy (JStr ''pw'') \<and> truthy (JStr ''123456'') \<and>
           to_string (JStr ''123456'') = Some ''123456'' \<and>
           read_field ?v ''error'' = Some (JStr ''Invalid token'') \<and>
           truthy (JStr ''Invalid token'') \<and>
           to_string (JStr ''Invalid token'') = Some ''Invalid token''" by simp
  from employeeLogin_errors [of "JStr ''me''" "JStr ''pw''" "JStr ''123456''" ?pf ?r "[]"
      "''123456''" ?v apiCall' w' "JStr ''Invalid token''" "''Invalid token''"] ex b
  have 2: "employeeLogin ?pf (JStr ''me'') (JStr ''pw'') (JStr ''123456'') ?r [] =
     (Throws (Error ''Invalid token''), ?r, w')" by blast
  from 1 2 show ?thesis by simp
qed

text \<open>
  Claim C9 as stated fails for a response that carries an \<^verbatim>\<open>error\<close> field with a falsy
  value: for the body \<^verbatim>\<open>{"error": null, "userId": 7, "hash": "h"}\<close> the method returns and
  the username and password of the instance are replaced.
\<close>

theorem employeeLogin_falsy_error_field:
  "read_field (Json (JData [(''error'', JNull), (''userId'', JNum 7), (''hash'', JStr ''h'')]))
     ''error'' = Some JNull \<and>
   fst (employeeLogin
      (test_platform (\<lambda>q. JData [(''error'', JNull), (''userId'', JNum 7), (''hash'', JStr ''h'')]))
      (JStr ''me'') (JStr ''pw'') (JStr ''123456'') (test_request (JStr ''u'') (JStr ''p'')) []) =
     Returns () \<and>
   config (fst (snd (employeeLogin
      (test_platform (\<lambda>q. JData [(''error'', JNull), (''userId'', JNum 7), (''hash'', JStr ''h'')]))
      (JStr ''me'') (JStr ''pw'') (JStr ''123456'') (test_request (JStr ''u'') (JStr ''p'')) []))) =
     (config (test_request (JStr ''u'') (JStr ''p'')))\<lparr>username := JNum 7, password := JStr ''h''\<rparr>"
  by code_simp

end
